theory Spec2Isabelle
  imports Main "HOL-Library.AList"
begin

section \<open>Python values, classes and the process state\<close>

text \<open>
  The module \<^verbatim>\<open>pytorch3d/implicitron/tools/config.py\<close> works on Python class objects:
  it reads their \<^verbatim>\<open>__bases__\<close>, \<^verbatim>\<open>__mro__\<close>, \<^verbatim>\<open>__annotations__\<close> and \<^verbatim>\<open>__dict__\<close>, adds
  attributes to them and keeps a process-wide registry.  A class is identified by a
  \<open>cid\<close>: the builtin \<^verbatim>\<open>object\<close>, \<^verbatim>\<open>str\<close> and \<^verbatim>\<open>int\<close>, the two marker classes of the
  module, OmegaConf's \<^verbatim>\<open>DictConfig\<close>, or the \<open>k\<close>-th class the user declared.  The class
  objects themselves live in a store inside the state \<open>world\<close>.
\<close>

datatype cid =
    object_c
  | ReplaceableBase
  | Configurable
  | str_c
  | int_c
  | DictConfig_c
  | Cls nat

text \<open>Every \<^verbatim>\<open>raise\<close> of the module and of the library calls it makes is a value.
  \<open>RecursionError\<close> is what the interpreter raises when the call depth exceeds its
  limit; the limit is the \<open>fuel\<close> argument of the recursive functions below.\<close>

datatype error =
    ValueError string
  | TypeError string
  | AttributeError string
  | KeyError string
  | MissingMandatoryValue string
  | RecursionError

text \<open>A key of a \<^verbatim>\<open>DictConfig\<close> is a string or something else (an int, an enum).\<close>

datatype ckey = SKey string | OKey int

text \<open>
  Python objects the module handles.  \<open>VDict\<close> is a \<^verbatim>\<open>DictConfig\<close> (keys in insertion
  order), \<open>VMissing\<close> the OmegaConf marker \<^verbatim>\<open>???\<close> of a mandatory value, \<open>VInst c d\<close> an
  instance of class \<open>c\<close> with instance dictionary \<open>d\<close>, \<open>VFunc ps\<close> a function with
  parameters \<open>ps\<close> (each with its default, if it has one), \<open>VField C dnp\<close> the
  \<^verbatim>\<open>dataclasses.field(default_factory=create)\<close> built by \<^verbatim>\<open>get_default_args_field(C,
  _do_not_process=dnp)\<close>, \<open>VCreate name type_ pluggable\<close> the closure returned by
  \<^verbatim>\<open>_default_create(name, type_, pluggable)\<close>, \<open>VInit c\<close> the \<^verbatim>\<open>__init__\<close> that
  \<^verbatim>\<open>dataclasses.dataclass\<close> generated for class \<open>c\<close>, \<open>VRunAutoCreation\<close> a method whose body is
  \<^verbatim>\<open>run_auto_creation(self)\<close> (the documented \<^verbatim>\<open>__post_init__\<close>) and \<open>VUser k\<close> any other
  method written by the user, number \<open>k\<close>.
\<close>

datatype val =
    VNone
  | VBool bool
  | VInt int
  | VStr string
  | VMissing
  | VDict "(ckey \<times> val) list"
  | VList "val list"
  | VInst cid "(string \<times> val) list"
  | VClass cid
  | VFunc "(string \<times> val option) list"
  | VField val "cid list"
  | VCreate string cid bool
  | VInit cid
  | VRunAutoCreation
  | VUser nat

text \<open>
  A class object.  The attributes the module tests with \<^verbatim>\<open>in some_class.__dict__\<close> are
  options: \<open>None\<close> when the class's own \<^verbatim>\<open>__dict__\<close> does not hold them.  A dataclass field
  is its name, its type and its default: \<open>None\<close> for no default, \<open>Some (VField C dnp)\<close>
  for a default factory, any other \<open>Some v\<close> for a plain default.
\<close>

record pyclass =
  cname :: string
  bases :: "cid list"
  mro :: "cid list"
  annotations :: "(string \<times> val) list option"
  attrs :: "(string \<times> val) list"
  cls_creation_functions :: "string list option"
  cls_processed_members :: "string set option"
  cls_known_implementations :: "(string \<times> cid) list option"
  dataclass_fields :: "(string \<times> val \<times> val option) list option"

datatype warning =
    Unprocessed string
  | NewImplementation string
  | Clash string

text \<open>
  The process state: the class objects, the global \<^verbatim>\<open>registry._mapping\<close> (a
  \<^verbatim>\<open>defaultdict(dict)\<close>: every base class has a dictionary, empty until something is
  registered), the warnings issued so far (latest first) and the meaning of the user's
  own methods.  The registry is kept as what is registered: reading \<^verbatim>\<open>_mapping[base]\<close> for a
  base without entries inserts an empty dictionary in Python, and the module only reaches
  \<^verbatim>\<open>_mapping\<close> through such reads, so it cannot tell that dictionary from none; here both
  are the empty list, and nothing is stated about which keys \<^verbatim>\<open>_mapping\<close> holds.
\<close>

record world =
  classes :: "cid \<Rightarrow> pyclass"
  registry :: "cid \<Rightarrow> (string \<times> cid) list"
  warnings :: "warning list"
  user_code :: "nat \<Rightarrow> val \<Rightarrow> error + val"

definition TYPE_SUFFIX :: string where "TYPE_SUFFIX = ''_class_type''"
definition ARGS_SUFFIX :: string where "ARGS_SUFFIX = ''_args''"

text \<open>Python's \<^verbatim>\<open>str.endswith\<close>, \<^verbatim>\<open>str.startswith\<close>, \<^verbatim>\<open>dict.values\<close> and \<^verbatim>\<open>dict.update\<close>.\<close>

definition endswith :: "string \<Rightarrow> string \<Rightarrow> bool" where
  "endswith s suf = (length suf \<le> length s \<and> drop (length s - length suf) s = suf)"

definition startswith :: "string \<Rightarrow> string \<Rightarrow> bool" where
  "startswith s pre = (take (length pre) s = pre)"

definition dict_values :: "('k \<times> 'v) list \<Rightarrow> 'v list" where
  "dict_values d = map snd d"

definition dict_update :: "('k \<times> 'v) list \<Rightarrow> ('k \<times> 'v) list \<Rightarrow> ('k \<times> 'v) list" where
  "dict_update d other = fold (\<lambda>(k, v). AList.update k v) other d"

definition issubclass :: "world \<Rightarrow> cid \<Rightarrow> cid \<Rightarrow> bool" where
  "issubclass w a b = (b \<in> set (mro (classes w a)))"

section \<open>The registry\<close>

definition is_base_class :: "world \<Rightarrow> cid \<Rightarrow> bool" where
  "is_base_class w some_class = (ReplaceableBase \<in> set (bases (classes w some_class)))"

text \<open>\<^verbatim>\<open>some_class.mro()[-3::-1]\<close> is the method resolution order without its last two
  entries, backwards; it is empty when the order has fewer than three entries.\<close>

definition base_class_from_class :: "world \<Rightarrow> cid \<Rightarrow> cid option" where
  "base_class_from_class w some_class =
     List.find (\<lambda>base. base \<noteq> ReplaceableBase \<and> issubclass w base ReplaceableBase)
       (rev (take (length (mro (classes w some_class)) - 2) (mro (classes w some_class))))"

definition register' :: "world \<Rightarrow> cid \<Rightarrow> cid option \<Rightarrow> string \<Rightarrow> (error + unit) \<times> world" where
  "register' w some_class base_class name =
     (case (case base_class of None \<Rightarrow> base_class_from_class w some_class | Some b \<Rightarrow> Some b) of
        None \<Rightarrow> (Inl (ValueError ''Cannot register. Cannot tell what it is.''), w)
      | Some b \<Rightarrow>
          if some_class = b then (Inl (ValueError ''Attempted to register the base class''), w)
          else (Inr (), w\<lparr>registry := (registry w)(b := AList.update name some_class (registry w b))\<rparr>))"

definition registry_register :: "world \<Rightarrow> cid \<Rightarrow> (error + cid) \<times> world" where
  "registry_register w some_class =
     (case register' w some_class None (cname (classes w some_class)) of
        (Inl e, w') \<Rightarrow> (Inl e, w')
      | (Inr _, w') \<Rightarrow> (Inr some_class, w'))"

definition registry_get :: "world \<Rightarrow> cid \<Rightarrow> string \<Rightarrow> error + cid" where
  "registry_get w base_class_wanted name =
     (case (if is_base_class w base_class_wanted then Some base_class_wanted
            else base_class_from_class w base_class_wanted) of
        None \<Rightarrow> Inl (ValueError ''Cannot look up. Cannot tell what it is.'')
      | Some base_class \<Rightarrow>
          (case map_of (registry w base_class) name of
             None \<Rightarrow> Inl (ValueError (name @ '' has not been registered.''))
           | Some result \<Rightarrow>
               if \<not> issubclass w result base_class_wanted
               then Inl (ValueError (name @ '' resolves to a class which does not subclass the wanted one''))
               else Inr result))"

definition registry_get_all :: "world \<Rightarrow> cid \<Rightarrow> error + cid list" where
  "registry_get_all w base_class_wanted =
     (if is_base_class w base_class_wanted
      then Inr (dict_values (registry w base_class_wanted))
      else case base_class_from_class w base_class_wanted of
             None \<Rightarrow> Inl (ValueError ''Cannot look up. Cannot tell what it is.'')
           | Some base_class \<Rightarrow>
               Inr (filter (\<lambda>cls. issubclass w cls base_class_wanted \<and> cls \<noteq> base_class_wanted)
                      (dict_values (registry w base_class))))"


section \<open>Attribute lookup and class mutation\<close>

text \<open>Attribute lookup on a class walks its method resolution order.\<close>

fun first_some :: "('a \<Rightarrow> 'b option) \<Rightarrow> 'a list \<Rightarrow> 'b option" where
  "first_some f [] = None"
| "first_some f (x # xs) = (case f x of Some y \<Rightarrow> Some y | None \<Rightarrow> first_some f xs)"

definition mro_lookup :: "world \<Rightarrow> cid \<Rightarrow> (pyclass \<Rightarrow> 'a option) \<Rightarrow> 'a option" where
  "mro_lookup w c f = first_some (\<lambda>b. f (classes w b)) (mro (classes w c))"

definition class_getattr :: "world \<Rightarrow> cid \<Rightarrow> string \<Rightarrow> val option" where
  "class_getattr w c name = mro_lookup w c (\<lambda>k. map_of (attrs k) name)"

definition upd_class :: "world \<Rightarrow> cid \<Rightarrow> (pyclass \<Rightarrow> pyclass) \<Rightarrow> world" where
  "upd_class w c f = w\<lparr>classes := (classes w)(c := f (classes w c))\<rparr>"

definition class_setattr :: "world \<Rightarrow> cid \<Rightarrow> string \<Rightarrow> val \<Rightarrow> world" where
  "class_setattr w c name v = upd_class w c (\<lambda>k. k\<lparr>attrs := AList.update name v (attrs k)\<rparr>)"

definition own_annotations :: "world \<Rightarrow> cid \<Rightarrow> (string \<times> val) list" where
  "own_annotations w c = (case annotations (classes w c) of None \<Rightarrow> [] | Some a \<Rightarrow> a)"

definition set_annotation :: "world \<Rightarrow> cid \<Rightarrow> string \<Rightarrow> val \<Rightarrow> world" where
  "set_annotation w c name ty =
     upd_class w c (\<lambda>k. k\<lparr>annotations := Some (AList.update name ty (own_annotations w c))\<rparr>)"

definition warn :: "warning \<Rightarrow> world \<Rightarrow> world" where
  "warn x w = w\<lparr>warnings := warnings w @ [x]\<rparr>"

definition is_actually_dataclass :: "world \<Rightarrow> cid \<Rightarrow> bool" where
  "is_actually_dataclass w some_class = (dataclass_fields (classes w some_class) \<noteq> None)"

definition is_configurable_class :: "world \<Rightarrow> val \<Rightarrow> bool" where
  "is_configurable_class w C =
     (case C of VClass c \<Rightarrow> issubclass w c Configurable \<or> issubclass w c ReplaceableBase
      | _ \<Rightarrow> False)"

section \<open>\<^verbatim>\<open>dataclasses.dataclass(eq=False)\<close>\<close>

text \<open>
  The part of the standard library's \<^verbatim>\<open>dataclasses._process_class\<close> that the module relies
  on.  The fields of the class are those of the dataclasses among its bases, in reversed
  method resolution order, then its own annotations; the default of an own field is the
  class attribute of that name.  A class attribute that is a \<^verbatim>\<open>Field\<close> with a default
  factory is deleted from the class.  \<^verbatim>\<open>__dataclass_fields__\<close> is set before \<^verbatim>\<open>__init__\<close> is
  generated, and generating \<^verbatim>\<open>__init__\<close> raises \<^verbatim>\<open>TypeError\<close> when a field without a default
  follows one with a default.  A list as the default of an own field is refused before
  anything is changed (\<^verbatim>\<open>ValueError\<close>: mutable default).  Pseudo-fields (\<^verbatim>\<open>ClassVar\<close>,
  \<^verbatim>\<open>InitVar\<close>) are not modelled.
\<close>

definition is_field :: "val \<Rightarrow> bool" where
  "is_field v = (case v of VField _ _ \<Rightarrow> True | _ \<Rightarrow> False)"

definition inherited_fields :: "world \<Rightarrow> cid \<Rightarrow> (string \<times> val \<times> val option) list" where
  "inherited_fields w c =
     fold (\<lambda>b fields. case mro_lookup w b dataclass_fields of
                         None \<Rightarrow> fields
                       | Some base_fields \<Rightarrow> dict_update fields base_fields)
       (rev (tl (mro (classes w c)))) []"

definition get_field :: "world \<Rightarrow> cid \<Rightarrow> string \<times> val \<Rightarrow> string \<times> val \<times> val option" where
  "get_field w c a = (fst a, snd a, class_getattr w c (fst a))"

fun replace_field_attrs :: "cid \<Rightarrow> string list \<Rightarrow> world \<Rightarrow> (error + unit) \<times> world" where
  "replace_field_attrs c [] w = (Inr (), w)"
| "replace_field_attrs c (name # names) w =
     (case class_getattr w c name of
        Some (VField C dnp) \<Rightarrow>
          if name \<in> fst ` set (attrs (classes w c))
          then replace_field_attrs c names
                 (upd_class w c (\<lambda>k. k\<lparr>attrs := AList.delete name (attrs k)\<rparr>))
          else (Inl (AttributeError name), w)
      | _ \<Rightarrow> replace_field_attrs c names w)"

fun default_order_ok :: "bool \<Rightarrow> (string \<times> val \<times> val option) list \<Rightarrow> bool" where
  "default_order_ok seen_default [] = True"
| "default_order_ok seen_default ((name, ty, d) # fs) =
     (case d of Some _ \<Rightarrow> default_order_ok True fs
      | None \<Rightarrow> \<not> seen_default \<and> default_order_ok seen_default fs)"

definition dataclass :: "cid \<Rightarrow> world \<Rightarrow> (error + unit) \<times> world" where
  "dataclass c w =
     (let cls_annotations = own_annotations w c;
          fields = dict_update (inherited_fields w c) (map (get_field w c) cls_annotations)
      in if \<exists>a \<in> set cls_annotations.
              case class_getattr w c (fst a) of Some (VList _) \<Rightarrow> True | _ \<Rightarrow> False
         then (Inl (ValueError ''mutable default is not allowed''), w)
         else
         case replace_field_attrs c (map fst cls_annotations) w of
           (Inl e, w1) \<Rightarrow> (Inl e, w1)
         | (Inr _, w1) \<Rightarrow>
             if \<exists>(name, v) \<in> set (attrs (classes w1 c)).
                  is_field v \<and> name \<notin> fst ` set cls_annotations
             then (Inl (TypeError ''is a field but has no type annotation''), w1)
             else
               let w2 = upd_class w1 c (\<lambda>k. k\<lparr>dataclass_fields := Some fields\<rparr>)
               in if \<not> default_order_ok False fields
                  then (Inl (TypeError ''non-default argument follows default argument''), w2)
                  else if ''__init__'' \<in> fst ` set (attrs (classes w2 c)) then (Inr (), w2)
                  else (Inr (), class_setattr w2 c ''__init__'' (VInit c)))"

section \<open>Expansion of a class\<close>

text \<open>The loop over \<^verbatim>\<open>registry.get_all(type_)\<close> in the pluggable branch of
  \<^verbatim>\<open>_process_member\<close>.\<close>

fun add_implementations ::
  "string \<Rightarrow> cid \<Rightarrow> cid list \<Rightarrow> cid list \<Rightarrow> (string \<times> cid) list \<Rightarrow> world
     \<Rightarrow> (error + (string \<times> cid) list) \<times> world" where
  "add_implementations name some_class dnp [] known_implementations w =
     (Inr known_implementations, w)"
| "add_implementations name some_class dnp (derived_type # rest) known_implementations w =
     (if derived_type \<in> set dnp
      then add_implementations name some_class dnp rest known_implementations w
      else if issubclass w derived_type some_class
      then add_implementations name some_class dnp rest known_implementations w
      else if name @ ''_'' @ cname (classes w derived_type) @ ARGS_SUFFIX
                \<in> fst ` set (own_annotations w some_class)
      then (Inl (ValueError ''Cannot generate the args field because it is already present.''), w)
      else add_implementations name some_class dnp rest
             (AList.update (cname (classes w derived_type)) derived_type known_implementations)
             (class_setattr
                (set_annotation w some_class
                   (name @ ''_'' @ cname (classes w derived_type) @ ARGS_SUFFIX) (VClass DictConfig_c))
                some_class (name @ ''_'' @ cname (classes w derived_type) @ ARGS_SUFFIX)
                (VField (VClass derived_type) (dnp @ [some_class]))))"

definition add_creation_function ::
  "string \<Rightarrow> cid \<Rightarrow> bool \<Rightarrow> cid \<Rightarrow> string list \<Rightarrow> world \<Rightarrow> string list \<times> world" where
  "add_creation_function name ty pluggable some_class creation_functions w =
     (creation_functions @ [''create_'' @ name],
      if class_getattr w some_class (''create_'' @ name) = None
      then class_setattr w some_class (''create_'' @ name) (VCreate name ty pluggable)
      else w)"

text \<open>\<^verbatim>\<open>_process_member\<close>: the class is changed in the state; the two lists the source
  modifies in place are returned.  It is only called for a name of the class's own
  \<^verbatim>\<open>__annotations__\<close>; on a class without annotations of its own the read of
  \<^verbatim>\<open>__annotations__\<close> gives an empty dictionary (Python 3.10 and later), so the deletion raises
  \<^verbatim>\<open>KeyError\<close> there too.\<close>

definition process_member ::
  "string \<Rightarrow> cid \<Rightarrow> bool \<Rightarrow> cid \<Rightarrow> string list \<Rightarrow> cid list \<Rightarrow> (string \<times> cid) list \<Rightarrow> world
     \<Rightarrow> (error + string list \<times> (string \<times> cid) list) \<times> world" where
  "process_member name ty pluggable some_class creation_functions dnp known_implementations w =
     (case annotations (classes w some_class) of
        None \<Rightarrow> (Inl (KeyError name), w)
      | Some a \<Rightarrow>
     if name \<notin> fst ` set a then (Inl (KeyError name), w)
     else
       let w0 = upd_class w some_class (\<lambda>k. k\<lparr>annotations := Some (AList.delete name a)\<rparr>)
       in if pluggable then
            let w1 = (if name @ TYPE_SUFFIX \<notin> fst ` set (own_annotations w0 some_class)
                      then class_setattr
                             (set_annotation w0 some_class (name @ TYPE_SUFFIX) (VClass str_c))
                             some_class (name @ TYPE_SUFFIX) (VStr ''UNDEFAULTED'')
                      else w0)
            in case registry_get_all w1 ty of
                 Inl e \<Rightarrow> (Inl e, w1)
               | Inr derived \<Rightarrow>
                   (case add_implementations name some_class dnp derived known_implementations w1 of
                      (Inl e, w2) \<Rightarrow> (Inl e, w2)
                    | (Inr ki, w2) \<Rightarrow>
                        (case add_creation_function name ty pluggable some_class creation_functions w2 of
                           (cf, w3) \<Rightarrow> (Inr (cf, ki), w3)))
          else
            if name @ ARGS_SUFFIX \<in> fst ` set (own_annotations w0 some_class)
            then (Inl (ValueError ''Cannot generate the args field because it is already present.''), w0)
            else if issubclass w0 ty some_class \<or> ty \<in> set dnp
            then (Inl (ValueError ''Cannot process the type inside the class''), w0)
            else
              (case add_creation_function name ty pluggable some_class creation_functions
                      (class_setattr
                         (set_annotation w0 some_class (name @ ARGS_SUFFIX) (VClass DictConfig_c))
                         some_class (name @ ARGS_SUFFIX) (VField (VClass ty) (dnp @ [some_class]))) of
                 (cf, w3) \<Rightarrow> (Inr (cf, known_implementations), w3)))"

text \<open>The list \<^verbatim>\<open>to_process\<close> that \<^verbatim>\<open>expand_args_fields\<close> builds from the class's own
  annotations.\<close>

definition classify :: "world \<Rightarrow> string \<times> val \<Rightarrow> (string \<times> cid \<times> bool) option" where
  "classify w a =
     (case snd a of
        VClass ty \<Rightarrow>
          if issubclass w ty ReplaceableBase \<and> ReplaceableBase \<in> set (bases (classes w ty))
          then Some (fst a, ty, True)
          else if issubclass w ty Configurable then Some (fst a, ty, False)
          else None
      | _ \<Rightarrow> None)"

definition to_process :: "world \<Rightarrow> cid \<Rightarrow> (string \<times> cid \<times> bool) list" where
  "to_process w some_class =
     (case annotations (classes w some_class) of
        None \<Rightarrow> []
      | Some a \<Rightarrow> List.map_filter (classify w) a)"

fun process_members ::
  "cid \<Rightarrow> cid list \<Rightarrow> (string \<times> cid \<times> bool) list
     \<Rightarrow> string list \<times> (string \<times> cid) list \<times> string set \<Rightarrow> world
     \<Rightarrow> (error + string list \<times> (string \<times> cid) list \<times> string set) \<times> world" where
  "process_members some_class dnp [] acc w = (Inr acc, w)"
| "process_members some_class dnp ((name, ty, pluggable) # rest) (cf, ki, pm) w =
     (case process_member name ty pluggable some_class cf dnp ki w of
        (Inl e, w') \<Rightarrow> (Inl e, w')
      | (Inr (cf', ki'), w') \<Rightarrow> process_members some_class dnp rest (cf', ki', insert name pm) w')"

definition clashes :: "string list \<Rightarrow> warning list" where
  "clashes creation_functions =
     map Clash (filter (\<lambda>key. count_list creation_functions key > 1)
                  (rev (remdups (rev creation_functions))))"

definition seal ::
  "cid \<Rightarrow> string list \<times> (string \<times> cid) list \<times> string set \<Rightarrow> world \<Rightarrow> (error + unit) \<times> world" where
  "seal some_class acc w =
     (case acc of (cf, ki, pm) \<Rightarrow>
        dataclass some_class
          (upd_class (w\<lparr>warnings := warnings w @ clashes cf\<rparr>) some_class
             (\<lambda>k. k\<lparr>cls_creation_functions := Some cf, cls_processed_members := Some pm,
                     cls_known_implementations := Some ki\<rparr>)))"

definition merge_base ::
  "pyclass \<Rightarrow> string list \<times> (string \<times> cid) list \<times> string set
     \<Rightarrow> string list \<times> (string \<times> cid) list \<times> string set" where
  "merge_base base acc =
     (case acc of (cf, ki, pm) \<Rightarrow>
        ((case cls_creation_functions base of None \<Rightarrow> cf | Some xs \<Rightarrow> cf @ xs),
         (case cls_known_implementations base of None \<Rightarrow> ki | Some d \<Rightarrow> dict_update ki d),
         (case cls_processed_members base of None \<Rightarrow> pm | Some s \<Rightarrow> pm \<union> s)))"

text \<open>
  \<^verbatim>\<open>expand_args_fields\<close>, with the loop over \<^verbatim>\<open>some_class.mro()[-3:0:-1]\<close> as
  \<open>expand_bases\<close>.  The recursion into a base class is one call deeper; at depth \<open>0\<close>
  the interpreter raises \<^verbatim>\<open>RecursionError\<close>.  The returned class is the argument itself,
  so only success or the error is returned.
\<close>

fun expand_args_fields :: "nat \<Rightarrow> cid \<Rightarrow> cid list \<Rightarrow> world \<Rightarrow> (error + unit) \<times> world"
and expand_bases ::
  "nat \<Rightarrow> cid list \<Rightarrow> cid list \<Rightarrow> string list \<times> (string \<times> cid) list \<times> string set \<Rightarrow> world
     \<Rightarrow> (error + string list \<times> (string \<times> cid) list \<times> string set) \<times> world" where
  "expand_args_fields 0 some_class dnp w =
     (if is_actually_dataclass w some_class then (Inr (), w) else (Inl RecursionError, w))"
| "expand_args_fields (Suc n) some_class dnp w =
     (if is_actually_dataclass w some_class then (Inr (), w)
      else
        case expand_bases n
               (rev (tl (take (length (mro (classes w some_class)) - 2) (mro (classes w some_class)))))
               dnp ([], [], {}) w of
          (Inl e, w1) \<Rightarrow> (Inl e, w1)
        | (Inr acc, w1) \<Rightarrow>
            (case process_members some_class dnp (to_process w1 some_class) acc w1 of
               (Inl e, w2) \<Rightarrow> (Inl e, w2)
             | (Inr acc', w2) \<Rightarrow> seal some_class acc' w2))"
| "expand_bases n [] dnp acc w = (Inr acc, w)"
| "expand_bases n (base # rest) dnp acc w =
     (if base = ReplaceableBase then expand_bases n rest dnp acc w
      else if base = Configurable then expand_bases n rest dnp acc w
      else if \<not> (issubclass w base Configurable \<or> issubclass w base ReplaceableBase)
      then expand_bases n rest dnp acc w
      else
        case expand_args_fields n base dnp w of
          (Inl e, w') \<Rightarrow> (Inl e, w')
        | (Inr _, w') \<Rightarrow> expand_bases n rest dnp (merge_base (classes w' base) acc) w')"


section \<open>Default configuration trees\<close>

text \<open>\<^verbatim>\<open>dataclasses.is_dataclass\<close> looks \<^verbatim>\<open>__dataclass_fields__\<close> up with \<^verbatim>\<open>hasattr\<close>, so a class that
  only inherits from a dataclass counts.\<close>

definition is_dataclass :: "world \<Rightarrow> val \<Rightarrow> bool" where
  "is_dataclass w C =
     (case C of VClass c \<Rightarrow> mro_lookup w c dataclass_fields \<noteq> None | _ \<Rightarrow> False)"

text \<open>A value OmegaConf accepts in a config: a primitive, a \<^verbatim>\<open>DictConfig\<close> or a list.\<close>

definition supported_value :: "val \<Rightarrow> bool" where
  "supported_value v =
     (case v of VNone \<Rightarrow> True | VBool _ \<Rightarrow> True | VInt _ \<Rightarrow> True | VStr _ \<Rightarrow> True
      | VMissing \<Rightarrow> True | VDict _ \<Rightarrow> True | VList _ \<Rightarrow> True | _ \<Rightarrow> False)"

text \<open>\<^verbatim>\<open>inspect.signature(C)\<close>: the parameters of a function, or those of the \<^verbatim>\<open>__init__\<close> of a
  class (none when it is \<^verbatim>\<open>object.__init__\<close>); the builtin types \<^verbatim>\<open>str\<close> and \<^verbatim>\<open>int\<close> have no
  signature.\<close>

definition signature :: "world \<Rightarrow> val \<Rightarrow> error + (string \<times> val option) list" where
  "signature w C =
     (case C of
        VFunc params \<Rightarrow> Inr params
      | VClass c \<Rightarrow>
          if c = str_c \<or> c = int_c
          then Inl (ValueError ''no signature found for builtin type'')
          else
          (case class_getattr w c ''__init__'' of
             None \<Rightarrow> Inr []
           | Some (VFunc params) \<Rightarrow> Inr params
           | Some _ \<Rightarrow> Inl (TypeError ''unsupported callable''))
      | _ \<Rightarrow> Inl (TypeError ''is not a callable object''))"

text \<open>The loop over \<^verbatim>\<open>sig.parameters\<close> and the final \<^verbatim>\<open>DictConfig(kwargs)\<close>.\<close>

definition defaulted_kwargs :: "(string \<times> val option) list \<Rightarrow> error + val" where
  "defaulted_kwargs params =
     (if \<exists>(pname, d) \<in> set params. case d of None \<Rightarrow> False | Some v \<Rightarrow> \<not> supported_value v
      then Inl (ValueError ''UnsupportedValueType'')
      else Inr (VDict (List.map_filter
                  (\<lambda>(pname, d). case d of None \<Rightarrow> None | Some v \<Rightarrow> Some (SKey pname, v)) params)))"

definition class_of :: "val \<Rightarrow> cid option" where
  "class_of C = (case C of VClass c \<Rightarrow> Some c | _ \<Rightarrow> None)"

text \<open>The first step of \<^verbatim>\<open>get_default_args\<close>: a configurable class is expanded, unless it
  is being processed already.\<close>

definition ensure_processed :: "nat \<Rightarrow> val \<Rightarrow> cid list \<Rightarrow> world \<Rightarrow> (error + unit) \<times> world" where
  "ensure_processed n C dnp w =
     (if is_configurable_class w C
      then case class_of C of
             None \<Rightarrow> (Inr (), w)
           | Some c \<Rightarrow>
               if c \<in> set dnp
               then (Inl (ValueError ''Internal recursion error. Need processed class, but cannot get it.''), w)
               else expand_args_fields n c dnp w
      else (Inr (), w))"

text \<open>
  \<^verbatim>\<open>dataclasses.fields(C)\<close> when \<^verbatim>\<open>dataclasses.is_dataclass(C)\<close>, which holds of a dataclass
  and of an instance of one.  For an instance \<^verbatim>\<open>OmegaConf.structured\<close> takes the value of each
  field from the instance, so the value stands here where the default stands for a class
  (an instance that has lost the attribute of a field reads as one without default).
\<close>

definition fields_of :: "world \<Rightarrow> val \<Rightarrow> (string \<times> val \<times> val option) list option" where
  "fields_of w C =
     (case C of
        VClass c \<Rightarrow> mro_lookup w c dataclass_fields
      | VInst c d \<Rightarrow>
          (case mro_lookup w c dataclass_fields of
             None \<Rightarrow> None
           | Some flds \<Rightarrow>
               Some (map (\<lambda>f. (fst f, fst (snd f),
                               case map_of d (fst f) of
                                 Some v \<Rightarrow> Some v
                               | None \<Rightarrow> class_getattr w c (fst f))) flds))
      | _ \<Rightarrow> None)"

text \<open>\<^verbatim>\<open>exclude = getattr(C, "_processed_members", ())\<close> and the loop of \<^verbatim>\<open>out.pop(field, None)\<close>.\<close>

definition exclude_of :: "world \<Rightarrow> val \<Rightarrow> string set" where
  "exclude_of w C =
     (case C of
        VClass c \<Rightarrow>
          (case mro_lookup w c cls_processed_members of None \<Rightarrow> {} | Some exclude \<Rightarrow> exclude)
      | VInst c d \<Rightarrow>
          (case mro_lookup w c cls_processed_members of None \<Rightarrow> {} | Some exclude \<Rightarrow> exclude)
      | _ \<Rightarrow> {})"

definition pop_excluded :: "string set \<Rightarrow> (ckey \<times> val) list \<Rightarrow> (ckey \<times> val) list" where
  "pop_excluded exclude out =
     filter (\<lambda>item. case fst item of SKey field \<Rightarrow> field \<notin> exclude | OKey _ \<Rightarrow> True) out"

text \<open>The end of \<^verbatim>\<open>get_default_args\<close>, for a \<open>C\<close> that is not a dataclass.\<close>

definition signature_defaults :: "world \<Rightarrow> val \<Rightarrow> error + val" where
  "signature_defaults w C =
     (if is_configurable_class w C then Inl (ValueError ''Failed to process'')
      else case signature w C of Inl e \<Rightarrow> Inl e | Inr params \<Rightarrow> defaulted_kwargs params)"

definition plain_default :: "val option \<Rightarrow> error + val" where
  "plain_default d =
     (case d of
        None \<Rightarrow> Inr VMissing
      | Some v \<Rightarrow> if supported_value v then Inr v else Inl (ValueError ''UnsupportedValueType''))"

text \<open>
  \<^verbatim>\<open>get_default_args\<close>, with \<^verbatim>\<open>OmegaConf.structured(C)\<close> on a dataclass as the loop
  \<open>structured_fields\<close> over the fields of the class; \<open>field_default\<close> is the value of
  one field: a field without default gives \<^verbatim>\<open>???\<close>, a plain default gives itself, a default
  factory is called.  The factories the module creates are closures that call
  \<^verbatim>\<open>get_default_args\<close> again, one call deeper.  (OmegaConf also validates each value
  against the declared type of its field and may convert it; that is not modelled.)
\<close>

function get_default_args :: "nat \<Rightarrow> val \<Rightarrow> cid list \<Rightarrow> world \<Rightarrow> (error + val) \<times> world"
and structured_fields ::
  "nat \<Rightarrow> (string \<times> val \<times> val option) list \<Rightarrow> world \<Rightarrow> (error + (ckey \<times> val) list) \<times> world"
and field_default :: "nat \<Rightarrow> val option \<Rightarrow> world \<Rightarrow> (error + val) \<times> world" where
  "get_default_args n C dnp w =
     (if C = VNone then (Inr (VDict []), w)
      else
        case ensure_processed n C dnp w of
          (Inl e, w1) \<Rightarrow> (Inl e, w1)
        | (Inr _, w1) \<Rightarrow>
            (case fields_of w1 C of
               Some flds \<Rightarrow>
                 (case structured_fields n flds w1 of
                    (Inl e, w2) \<Rightarrow> (Inl e, w2)
                  | (Inr out, w2) \<Rightarrow> (Inr (VDict (pop_excluded (exclude_of w2 C) out)), w2))
             | None \<Rightarrow> (signature_defaults w1 C, w1)))"
| "structured_fields n [] w = (Inr [], w)"
| "structured_fields n ((name, ty, d) # fs) w =
     (case field_default n d w of
        (Inl e, w1) \<Rightarrow> (Inl e, w1)
      | (Inr v, w1) \<Rightarrow>
          (case structured_fields n fs w1 of
             (Inl e, w2) \<Rightarrow> (Inl e, w2)
           | (Inr rest, w2) \<Rightarrow> (Inr ((SKey name, v) # rest), w2)))"
| "field_default n d w =
     (case d of
        Some (VField C dnp) \<Rightarrow>
          (case n of 0 \<Rightarrow> (Inl RecursionError, w) | Suc m \<Rightarrow> get_default_args m C dnp w)
      | _ \<Rightarrow> (plain_default d, w))"
  by pat_completeness auto
termination
  by (relation "inv_image (less_than <*lex*> less_than <*lex*> less_than)
        (\<lambda>x. case x of
              Inl (n, C, dnp, w) \<Rightarrow> (n, 2::nat, 0::nat)
            | Inr (Inl (n, flds, w)) \<Rightarrow> (n, 1, length flds)
            | Inr (Inr (n, d, w)) \<Rightarrow> (n, 0, 0))")
     auto

section \<open>Construction of instances and \<^verbatim>\<open>run_auto_creation\<close>\<close>

text \<open>\<^verbatim>\<open>**args\<close> for a \<^verbatim>\<open>DictConfig\<close>: every value is read first, in order, and reading a
  \<^verbatim>\<open>???\<close> raises; then the keys must be strings.\<close>

definition kwargs_items :: "(ckey \<times> val) list \<Rightarrow> error + (string \<times> val) list" where
  "kwargs_items d =
     (case List.find (\<lambda>item. snd item = VMissing) d of
        Some item \<Rightarrow>
          Inl (MissingMandatoryValue (case fst item of SKey s \<Rightarrow> s | OKey _ \<Rightarrow> []))
      | None \<Rightarrow>
          if \<exists>item \<in> set d. case fst item of OKey _ \<Rightarrow> True | SKey _ \<Rightarrow> False
          then Inl (TypeError ''keywords must be strings'')
          else Inr (List.map_filter
                      (\<lambda>item. case fst item of SKey s \<Rightarrow> Some (s, snd item) | OKey _ \<Rightarrow> None) d))"

definition kwargs_of :: "val \<Rightarrow> error + (string \<times> val) list" where
  "kwargs_of args =
     (case args of VDict d \<Rightarrow> kwargs_items d
      | _ \<Rightarrow> Inl (TypeError ''argument after ** must be a mapping''))"

text \<open>\<^verbatim>\<open>ReplaceableBase.__new__\<close> and \<^verbatim>\<open>Configurable.__new__\<close>: a warning when the class has
  not been processed.\<close>

definition marker_new :: "cid \<Rightarrow> world \<Rightarrow> world" where
  "marker_new c w =
     (if (issubclass w c ReplaceableBase \<or> issubclass w c Configurable)
         \<and> c \<noteq> ReplaceableBase \<and> c \<noteq> Configurable \<and> \<not> is_actually_dataclass w c
      then warn (Unprocessed (cname (classes w c))) w else w)"

text \<open>The body of a dataclass's \<^verbatim>\<open>__init__\<close>: each field, in order, gets the keyword
  argument, else its default, else the result of its default factory.\<close>

fun init_fields ::
  "nat \<Rightarrow> (string \<times> val \<times> val option) list \<Rightarrow> (string \<times> val) list \<Rightarrow> (string \<times> val) list \<Rightarrow> world
     \<Rightarrow> (error + (string \<times> val) list) \<times> world" where
  "init_fields n [] kwargs self w = (Inr self, w)"
| "init_fields n ((name, ty, d) # fs) kwargs self w =
     (case map_of kwargs name of
        Some v \<Rightarrow> init_fields n fs kwargs (AList.update name v self) w
      | None \<Rightarrow>
          (case d of
             None \<Rightarrow> (Inl (TypeError ''missing required argument''), w)
           | Some (VField C dnp) \<Rightarrow>
               (case n of
                  0 \<Rightarrow> (Inl RecursionError, w)
                | Suc m \<Rightarrow>
                    (case get_default_args m C dnp w of
                       (Inl e, w1) \<Rightarrow> (Inl e, w1)
                     | (Inr v, w1) \<Rightarrow> init_fields n fs kwargs (AList.update name v self) w1))
           | Some v \<Rightarrow> init_fields n fs kwargs (AList.update name v self) w))"

text \<open>Calling a class: \<^verbatim>\<open>__new__\<close>, then the \<^verbatim>\<open>__init__\<close> found along the method
  resolution order.  The binding of the keyword arguments fails before the body runs.  A
  class without \<^verbatim>\<open>__init__\<close> takes no arguments, unless it inherits the \<^verbatim>\<open>__new__\<close> of a marker
  class: then \<^verbatim>\<open>object.__init__\<close> ignores them.\<close>

definition init_instance ::
  "nat \<Rightarrow> cid \<Rightarrow> (string \<times> val) list \<Rightarrow> world \<Rightarrow> (error + val) \<times> world" where
  "init_instance n c kwargs w =
     (case class_getattr w c ''__init__'' of
        None \<Rightarrow>
          if kwargs = [] \<or> issubclass w c ReplaceableBase \<or> issubclass w c Configurable
          then (Inr (VInst c []), w)
          else (Inl (TypeError ''takes no arguments''), w)
      | Some (VInit d) \<Rightarrow>
          (case dataclass_fields (classes w d) of
             None \<Rightarrow> (Inl (AttributeError ''__dataclass_fields__''), w)
           | Some flds \<Rightarrow>
               if \<exists>k \<in> fst ` set kwargs. k \<notin> fst ` set flds
               then (Inl (TypeError ''got an unexpected keyword argument''), w)
               else if \<exists>(name, ty, dflt) \<in> set flds. dflt = None \<and> name \<notin> fst ` set kwargs
               then (Inl (TypeError ''missing required argument''), w)
               else (case init_fields n flds kwargs [] w of
                       (Inl e, w1) \<Rightarrow> (Inl e, w1)
                     | (Inr self, w1) \<Rightarrow> (Inr (VInst c self), w1)))
      | Some (VUser k) \<Rightarrow>
          (case user_code w k (VInst c kwargs) of
             Inl e \<Rightarrow> (Inl e, w)
           | Inr self \<Rightarrow> (Inr self, w))
      | Some _ \<Rightarrow> (Inl (TypeError ''unsupported __init__''), w))"

text \<open>\<^verbatim>\<open>getattr(self, name)\<close> and \<^verbatim>\<open>setattr(self, name, value)\<close> on an instance.\<close>

definition inst_getattr :: "world \<Rightarrow> val \<Rightarrow> string \<Rightarrow> val option" where
  "inst_getattr w self name =
     (case self of
        VInst c d \<Rightarrow> (case map_of d name of Some v \<Rightarrow> Some v | None \<Rightarrow> class_getattr w c name)
      | _ \<Rightarrow> None)"

definition inst_setattr :: "val \<Rightarrow> string \<Rightarrow> val \<Rightarrow> val" where
  "inst_setattr self name v =
     (case self of VInst c d \<Rightarrow> VInst c (AList.update name v d) | _ \<Rightarrow> self)"

definition inst_class_attr :: "world \<Rightarrow> val \<Rightarrow> (pyclass \<Rightarrow> 'a option) \<Rightarrow> 'a option" where
  "inst_class_attr w self f = (case self of VInst c d \<Rightarrow> mro_lookup w c f | _ \<Rightarrow> None)"

text \<open>\<^verbatim>\<open>registry.get(type_, type_name)\<close> for the value read from the instance: a value
  that is not a string is the name of nothing, and the lookup \<^verbatim>\<open>.get(name)\<close> of a list or a
  \<^verbatim>\<open>DictConfig\<close>, which cannot be hashed, raises \<^verbatim>\<open>TypeError\<close>.\<close>

definition chosen_class_of :: "world \<Rightarrow> cid \<Rightarrow> val \<Rightarrow> error + cid" where
  "chosen_class_of w ty type_name =
     (case type_name of
        VStr s \<Rightarrow> registry_get w ty s
      | _ \<Rightarrow>
          if \<not> is_base_class w ty \<and> base_class_from_class w ty = None
          then Inl (ValueError ''Cannot look up. Cannot tell what it is.'')
          else (case type_name of
                  VDict _ \<Rightarrow> Inl (TypeError ''unhashable type'')
                | VList _ \<Rightarrow> Inl (TypeError ''unhashable type'')
                | _ \<Rightarrow> Inl (ValueError ''has not been registered.'')))"

definition type_name_str :: "val \<Rightarrow> string" where
  "type_name_str type_name = (case type_name of VStr s \<Rightarrow> s | _ \<Rightarrow> [])"

text \<open>The test in \<^verbatim>\<open>inner_pluggable\<close> that a new implementation has been registered since the
  class was processed.\<close>

definition stale :: "(string \<times> cid) list \<Rightarrow> string \<Rightarrow> cid \<Rightarrow> bool" where
  "stale known type_name chosen_class =
     (case map_of known type_name of None \<Rightarrow> False | Some c \<Rightarrow> c \<noteq> chosen_class)"


text \<open>The \<^verbatim>\<open>__post_init__\<close> that a generated \<^verbatim>\<open>__init__\<close> calls: \<^verbatim>\<open>dataclasses\<close> looked it up
  with \<^verbatim>\<open>hasattr\<close> on the class it processed; the call goes through the instance.\<close>

definition post_init_of :: "world \<Rightarrow> cid \<Rightarrow> val option" where
  "post_init_of w c =
     (case class_getattr w c ''__init__'' of
        Some (VInit d) \<Rightarrow>
          if class_getattr w d ''__post_init__'' = None then None
          else class_getattr w c ''__post_init__''
      | _ \<Rightarrow> None)"

text \<open>
  \<open>construct n c kwargs\<close> is the call \<^verbatim>\<open>c(**kwargs)\<close>; \<open>call_method\<close> calls a method object on
  \<open>self\<close>; \<open>run_creations\<close> is the loop of \<^verbatim>\<open>run_auto_creation\<close>; \<open>inner\<close> and
  \<open>inner_pluggable\<close> are the two closures of \<^verbatim>\<open>_default_create\<close>.  The methods change
  \<open>self\<close> in place: here they return it.
\<close>

function construct :: "nat \<Rightarrow> cid \<Rightarrow> (string \<times> val) list \<Rightarrow> world \<Rightarrow> (error + val) \<times> world"
and call_method :: "nat \<Rightarrow> val \<Rightarrow> val \<Rightarrow> world \<Rightarrow> (error + val) \<times> world"
and run_auto_creation :: "nat \<Rightarrow> val \<Rightarrow> world \<Rightarrow> (error + val) \<times> world"
and run_creations :: "nat \<Rightarrow> string list \<Rightarrow> val \<Rightarrow> world \<Rightarrow> (error + val) \<times> world"
and inner :: "nat \<Rightarrow> string \<Rightarrow> cid \<Rightarrow> val \<Rightarrow> world \<Rightarrow> (error + val) \<times> world"
and inner_pluggable :: "nat \<Rightarrow> string \<Rightarrow> cid \<Rightarrow> val \<Rightarrow> world \<Rightarrow> (error + val) \<times> world" where
  "construct n c kwargs w =
     (case init_instance n c kwargs (marker_new c w) of
        (Inl e, w1) \<Rightarrow> (Inl e, w1)
      | (Inr self, w1) \<Rightarrow>
          (case post_init_of w1 c of
             None \<Rightarrow> (Inr self, w1)
           | Some f \<Rightarrow> call_method n f self w1))"
| "call_method n f self w =
     (case f of
        VCreate name ty pluggable \<Rightarrow>
          if pluggable then inner_pluggable n name ty self w else inner n name ty self w
      | VRunAutoCreation \<Rightarrow>
          (case n of 0 \<Rightarrow> (Inl RecursionError, w) | Suc m \<Rightarrow> run_auto_creation m self w)
      | VUser k \<Rightarrow>
          (case user_code w k self of Inl e \<Rightarrow> (Inl e, w) | Inr self' \<Rightarrow> (Inr self', w))
      | _ \<Rightarrow> (Inl (TypeError ''object is not callable''), w))"
| "run_auto_creation n self w =
     (case inst_class_attr w self cls_creation_functions of
        None \<Rightarrow> (Inl (AttributeError ''_creation_functions''), w)
      | Some cfs \<Rightarrow> run_creations n cfs self w)"
| "run_creations n [] self w = (Inr self, w)"
| "run_creations n (create_function # rest) self w =
     (case inst_getattr w self create_function of
        None \<Rightarrow> (Inl (AttributeError create_function), w)
      | Some f \<Rightarrow>
          (case call_method n f self w of
             (Inl e, w1) \<Rightarrow> (Inl e, w1)
           | (Inr self', w1) \<Rightarrow> run_creations n rest self' w1))"
| "inner n name ty self w =
     (case expand_args_fields n ty [] w of
        (Inl e, w1) \<Rightarrow> (Inl e, w1)
      | (Inr _, w1) \<Rightarrow>
          (case inst_getattr w1 self (name @ ARGS_SUFFIX) of
             None \<Rightarrow> (Inl (AttributeError (name @ ARGS_SUFFIX)), w1)
           | Some args \<Rightarrow>
               (case kwargs_of args of
                  Inl e \<Rightarrow> (Inl e, w1)
                | Inr kwargs \<Rightarrow>
                    (case n of
                       0 \<Rightarrow> (Inl RecursionError, w1)
                     | Suc m \<Rightarrow>
                         (case construct m ty kwargs w1 of
                            (Inl e, w2) \<Rightarrow> (Inl e, w2)
                          | (Inr obj, w2) \<Rightarrow> (Inr (inst_setattr self name obj), w2))))))"
| "inner_pluggable n name ty self w =
     (case inst_getattr w self (name @ TYPE_SUFFIX) of
        None \<Rightarrow> (Inl (AttributeError (name @ TYPE_SUFFIX)), w)
      | Some type_name \<Rightarrow>
          (case chosen_class_of w ty type_name of
             Inl e \<Rightarrow> (Inl e, w)
           | Inr chosen_class \<Rightarrow>
               (case inst_class_attr w self cls_known_implementations of
                  None \<Rightarrow> (Inl (AttributeError ''_known_implementations''), w)
                | Some known \<Rightarrow>
                    (case expand_args_fields n chosen_class []
                            (if stale known (type_name_str type_name) chosen_class
                             then warn (NewImplementation (type_name_str type_name)) w else w) of
                       (Inl e, w1) \<Rightarrow> (Inl e, w1)
                     | (Inr _, w1) \<Rightarrow>
                         (case inst_getattr w1 self
                                 (name @ ''_'' @ type_name_str type_name @ ARGS_SUFFIX) of
                            None \<Rightarrow>
                              (Inl (AttributeError
                                      (name @ ''_'' @ type_name_str type_name @ ARGS_SUFFIX)), w1)
                          | Some args \<Rightarrow>
                              (case kwargs_of args of
                                 Inl e \<Rightarrow> (Inl e, w1)
                               | Inr kwargs \<Rightarrow>
                                   (case n of
                                      0 \<Rightarrow> (Inl RecursionError, w1)
                                    | Suc m \<Rightarrow>
                                        (case construct m chosen_class kwargs w1 of
                                           (Inl e, w2) \<Rightarrow> (Inl e, w2)
                                         | (Inr obj, w2) \<Rightarrow>
                                             (Inr (inst_setattr self name obj), w2)))))))))"
  by pat_completeness auto
termination
  by (relation "inv_image (less_than <*lex*> less_than <*lex*> less_than)
        (\<lambda>x. case x of
              Inl (Inl (n, c, kwargs, w)) \<Rightarrow> (n, 2::nat, 0::nat)
            | Inl (Inr (Inl (n, f, self, w))) \<Rightarrow> (n, 1, 0)
            | Inl (Inr (Inr (n, self, w))) \<Rightarrow> (n, 3, 0)
            | Inr (Inl (n, cfs, self, w)) \<Rightarrow> (n, 2, length cfs)
            | Inr (Inr (Inl (n, name, ty, self, w))) \<Rightarrow> (n, 0, 0)
            | Inr (Inr (Inr (n, name, ty, self, w))) \<Rightarrow> (n, 0, 0))")
     auto

section \<open>Pruning a configuration tree\<close>

text \<open>\<^verbatim>\<open>keys = [key for key in dict_ if isinstance(key, str)]\<close>\<close>

definition str_keys :: "(ckey \<times> val) list \<Rightarrow> string list" where
  "str_keys d = List.map_filter (\<lambda>item. case fst item of SKey s \<Rightarrow> Some s | OKey _ \<Rightarrow> None) d"

text \<open>The inner loop \<^verbatim>\<open>for key in args_keys\<close>: \<^verbatim>\<open>del dict_[key]\<close> raises when the key is
  no longer there.\<close>

fun prune_keys ::
  "string \<Rightarrow> string \<Rightarrow> string list \<Rightarrow> (ckey \<times> val) list \<Rightarrow> error + (ckey \<times> val) list" where
  "prune_keys replaceable expect [] d = Inr d"
| "prune_keys replaceable expect (key # rest) d =
     (if startswith key (replaceable @ ''_'') \<and> key \<noteq> expect
      then if SKey key \<in> fst ` set d
           then prune_keys replaceable expect rest (AList.delete (SKey key) d)
           else Inl (KeyError key)
      else prune_keys replaceable expect rest d)"

text \<open>The loop \<^verbatim>\<open>for replaceable in replaceables\<close>: the selected type must be a string
  for the concatenation to work.\<close>

fun prune_replaceables ::
  "string list \<Rightarrow> string list \<Rightarrow> (ckey \<times> val) list \<Rightarrow> error + (ckey \<times> val) list" where
  "prune_replaceables [] args_keys d = Inr d"
| "prune_replaceables (replaceable # rest) args_keys d =
     (case map_of d (SKey (replaceable @ TYPE_SUFFIX)) of
        None \<Rightarrow> Inl (KeyError (replaceable @ TYPE_SUFFIX))
      | Some (VStr selected_type) \<Rightarrow>
          (case prune_keys replaceable (replaceable @ ''_'' @ selected_type @ ARGS_SUFFIX)
                  args_keys d of
             Inl e \<Rightarrow> Inl e
           | Inr d' \<Rightarrow> prune_replaceables rest args_keys d')
      | Some VMissing \<Rightarrow> Inl (MissingMandatoryValue (replaceable @ TYPE_SUFFIX))
      | Some _ \<Rightarrow> Inl (TypeError ''can only concatenate str to str''))"

definition prune_level :: "(ckey \<times> val) list \<Rightarrow> error + (ckey \<times> val) list" where
  "prune_level d =
     prune_replaceables
       (map (\<lambda>key. take (length key - length TYPE_SUFFIX) key)
          (filter (\<lambda>key. endswith key TYPE_SUFFIX) (str_keys d)))
       (filter (\<lambda>key. endswith key ARGS_SUFFIX) (str_keys d)) d"

lemma size_delete_le: "size_list f (AList.delete k d) \<le> size_list f d"
  by (induction d) auto

lemma prune_keys_size:
  "prune_keys r e ks d = Inr d' \<Longrightarrow> size_list f d' \<le> size_list f d"
proof (induction ks arbitrary: d)
  case Nil
  then show ?case by simp
next
  case (Cons key ks)
  show ?case
  proof (cases "startswith key (r @ ''_'') \<and> key \<noteq> e")
    case True
    with Cons.prems have "prune_keys r e ks (AList.delete (SKey key) d) = Inr d'"
      by (simp split: if_splits)
    from Cons.IH[OF this] show ?thesis
      using size_delete_le[of f "SKey key" d] by linarith
  next
    case False
    with Cons.prems have "prune_keys r e ks d = Inr d'" by auto
    from Cons.IH[OF this] show ?thesis .
  qed
qed

lemma prune_replaceables_size:
  "prune_replaceables rs ks d = Inr d' \<Longrightarrow> size_list f d' \<le> size_list f d"
proof (induction rs arbitrary: d)
  case Nil
  then show ?case by simp
next
  case (Cons r rs)
  from Cons.prems obtain sel d1 where
    1: "prune_keys r (r @ ''_'' @ sel @ ARGS_SUFFIX) ks d = Inr d1" and
    2: "prune_replaceables rs ks d1 = Inr d'"
    by (auto split: option.splits val.splits sum.splits)
  from prune_keys_size[OF 1, of f] Cons.IH[OF 2] show ?case by linarith
qed

lemma prune_level_size:
  "prune_level d = Inr d' \<Longrightarrow> size_list f d' \<le> size_list f d"
  unfolding prune_level_def by (rule prune_replaceables_size)

text \<open>\<^verbatim>\<open>remove_unused_components\<close>: the current level is pruned, then the loop
  \<open>prune_children\<close> goes into every value that is a \<^verbatim>\<open>DictConfig\<close>.  The dictionary is
  modified in place: here the pruned one is returned.\<close>

function remove_unused_components :: "(ckey \<times> val) list \<Rightarrow> error + (ckey \<times> val) list"
and prune_children :: "(ckey \<times> val) list \<Rightarrow> error + (ckey \<times> val) list" where
  "remove_unused_components d =
     (case prune_level d of Inl e \<Rightarrow> Inl e | Inr d' \<Rightarrow> prune_children d')"
| "prune_children [] = Inr []"
| "prune_children ((key, v) # rest) =
     (case v of
        VDict sub \<Rightarrow>
          (case remove_unused_components sub of
             Inl e \<Rightarrow> Inl e
           | Inr sub' \<Rightarrow>
               (case prune_children rest of
                  Inl e \<Rightarrow> Inl e
                | Inr rest' \<Rightarrow> Inr ((key, VDict sub') # rest')))
      | _ \<Rightarrow>
          (case prune_children rest of
             Inl e \<Rightarrow> Inl e
           | Inr rest' \<Rightarrow> Inr ((key, v) # rest')))"
  by pat_completeness auto
termination
proof (relation "measure (\<lambda>x. case x of Inl d \<Rightarrow> 2 * size (VDict d) + 1
                                        | Inr d \<Rightarrow> 2 * size (VDict d))")
  fix d d'
  assume "prune_level d = Inr d'"
  from prune_level_size[OF this, of "size_prod (\<lambda>x. 0) size"]
  show "(Inr d', Inl d) \<in> measure (\<lambda>x. case x of Inl d \<Rightarrow> 2 * size (VDict d) + 1
                                                | Inr d \<Rightarrow> 2 * size (VDict d))"
    by simp
qed auto

text \<open>
  What the pruning is meant to leave, in the words of the specification: at each level,
  a key is unused when it ends in \<^verbatim>\<open>_args\<close> and, for some key \<^verbatim>\<open><member>_class_type\<close> of the
  same level with value \<open>v\<close>, it starts with \<^verbatim>\<open><member>_\<close> and is not \<^verbatim>\<open><member>_<v>_args\<close>;
  the unused keys go, every other key stays, and every remaining nested tree is pruned
  in the same way.
\<close>

definition unused :: "(ckey \<times> val) list \<Rightarrow> ckey \<Rightarrow> bool" where
  "unused d k =
     (case k of
        OKey _ \<Rightarrow> False
      | SKey key \<Rightarrow>
          endswith key ARGS_SUFFIX \<and>
          (\<exists>tk \<in> set (str_keys d).
             endswith tk TYPE_SUFFIX \<and>
             startswith key (take (length tk - length TYPE_SUFFIX) tk @ ''_'') \<and>
             (case map_of d (SKey tk) of
                Some (VStr v) \<Rightarrow>
                  key \<noteq> take (length tk - length TYPE_SUFFIX) tk @ ''_'' @ v @ ARGS_SUFFIX
              | _ \<Rightarrow> False)))"

fun pruned :: "val \<Rightarrow> val" where
  "pruned (VDict d) =
     VDict (map (\<lambda>item. (fst item, pruned (snd item))) (filter (\<lambda>item. \<not> unused d (fst item)) d))"
| "pruned v = v"

section \<open>The classes of Scenario A\<close>

text \<open>
  \<^verbatim>\<open>class A(ReplaceableBase): pass\<close>, the registered \<^verbatim>\<open>class A1(A): m: int = 3\<close> and
  \<^verbatim>\<open>class A2(A): n: str = "2"\<close>, and
  \<^verbatim>\<open>class B(Configurable): a: A; a_class_type: str = "A2"\<close> with the \<^verbatim>\<open>__post_init__\<close> that
  calls \<^verbatim>\<open>run_auto_creation(self)\<close>.
\<close>

abbreviation cls_A :: cid where "cls_A \<equiv> Cls 0"
abbreviation cls_A1 :: cid where "cls_A1 \<equiv> Cls 1"
abbreviation cls_A2 :: cid where "cls_A2 \<equiv> Cls 2"
abbreviation cls_B :: cid where "cls_B \<equiv> Cls 3"

definition plain_class :: "string \<Rightarrow> cid list \<Rightarrow> cid list \<Rightarrow> pyclass" where
  "plain_class name bs m =
     \<lparr>cname = name, bases = bs, mro = m, annotations = None, attrs = [],
      cls_creation_functions = None, cls_processed_members = None,
      cls_known_implementations = None, dataclass_fields = None\<rparr>"

definition builtin_classes :: "cid \<Rightarrow> pyclass" where
  "builtin_classes c =
     (case c of
        object_c \<Rightarrow> plain_class ''object'' [] [object_c]
      | ReplaceableBase \<Rightarrow> plain_class ''ReplaceableBase'' [object_c] [ReplaceableBase, object_c]
      | Configurable \<Rightarrow> plain_class ''Configurable'' [object_c] [Configurable, object_c]
      | str_c \<Rightarrow> plain_class ''str'' [object_c] [str_c, object_c]
      | int_c \<Rightarrow> plain_class ''int'' [object_c] [int_c, object_c]
      | DictConfig_c \<Rightarrow> plain_class ''DictConfig'' [object_c] [DictConfig_c, object_c]
      | Cls k \<Rightarrow> plain_class [] [object_c] [Cls k, object_c])"

definition class_A :: pyclass where
  "class_A = plain_class ''A'' [ReplaceableBase] [cls_A, ReplaceableBase, object_c]"

definition class_A1 :: pyclass where
  "class_A1 = (plain_class ''A1'' [cls_A] [cls_A1, cls_A, ReplaceableBase, object_c])
     \<lparr>annotations := Some [(''m'', VClass int_c)], attrs := [(''m'', VInt 3)]\<rparr>"

definition class_A2 :: pyclass where
  "class_A2 = (plain_class ''A2'' [cls_A] [cls_A2, cls_A, ReplaceableBase, object_c])
     \<lparr>annotations := Some [(''n'', VClass str_c)], attrs := [(''n'', VStr ''2'')]\<rparr>"

definition class_B :: pyclass where
  "class_B = (plain_class ''B'' [Configurable] [cls_B, Configurable, object_c])
     \<lparr>annotations := Some [(''a'', VClass cls_A), (''a_class_type'', VClass str_c)],
      attrs := [(''a_class_type'', VStr ''A2''), (''__post_init__'', VRunAutoCreation)]\<rparr>"

text \<open>The state after the four class statements, before the two \<^verbatim>\<open>@registry.register\<close>.\<close>

definition declared :: world where
  "declared =
     \<lparr>classes = builtin_classes(cls_A := class_A, cls_A1 := class_A1, cls_A2 := class_A2,
                                 cls_B := class_B),
      registry = (\<lambda>b. []), warnings = [], user_code = (\<lambda>k self. Inr self)\<rparr>"

definition scenario_A :: world where
  "scenario_A = snd (registry_register (snd (registry_register declared cls_A1)) cls_A2)"

definition scenario_tree :: "(ckey \<times> val) list" where
  "scenario_tree =
     [(SKey ''a_class_type'', VStr ''A2''),
      (SKey ''a_A1_args'', VDict [(SKey ''m'', VInt 3)]),
      (SKey ''a_A2_args'', VDict [(SKey ''n'', VStr ''2'')])]"

section \<open>Notions used in the statements\<close>

text \<open>The namespace \<^verbatim>\<open>registry.get\<close> and \<^verbatim>\<open>registry.get_all\<close> look in: the requested base itself
  when it is a direct subclass of \<^verbatim>\<open>ReplaceableBase\<close>, else the base class found from it.\<close>

definition namespace_of :: "world \<Rightarrow> cid \<Rightarrow> cid option" where
  "namespace_of w base_class_wanted =
     (if is_base_class w base_class_wanted then Some base_class_wanted
      else base_class_from_class w base_class_wanted)"

text \<open>What \<^verbatim>\<open>registry.register\<close> maintains: every class registered in a namespace is a
  subclass of the namespace's base class and is not that class.\<close>

definition registry_ok :: "world \<Rightarrow> bool" where
  "registry_ok w =
     (\<forall>b. \<forall>c \<in> set (dict_values (registry w b)). issubclass w c b \<and> c \<noteq> b)"

text \<open>Two namespaces, \<^verbatim>\<open>Shape\<close> and \<^verbatim>\<open>Colour\<close>, each with an implementation called
  \<^verbatim>\<open>Plain\<close>.\<close>

definition two_roots :: world where
  "two_roots =
     \<lparr>classes = builtin_classes
        (Cls 10 := plain_class ''Shape'' [ReplaceableBase] [Cls 10, ReplaceableBase, object_c],
         Cls 11 := plain_class ''Colour'' [ReplaceableBase] [Cls 11, ReplaceableBase, object_c],
         Cls 12 := plain_class ''Plain'' [Cls 10] [Cls 12, Cls 10, ReplaceableBase, object_c],
         Cls 13 := plain_class ''Plain'' [Cls 11] [Cls 13, Cls 11, ReplaceableBase, object_c]),
      registry = (\<lambda>b. []), warnings = [], user_code = (\<lambda>k self. Inr self)\<rparr>"

text \<open>The keys that the pass for one member \<open>r\<close> of \<^verbatim>\<open>replaceables\<close> deletes.\<close>

definition selects :: "(ckey \<times> val) list \<Rightarrow> string \<Rightarrow> string \<Rightarrow> bool" where
  "selects d r key =
     (startswith key (r @ ''_'') \<and>
      (case map_of d (SKey (r @ TYPE_SUFFIX)) of
         Some (VStr v) \<Rightarrow> key \<noteq> r @ ''_'' @ v @ ARGS_SUFFIX
       | _ \<Rightarrow> False))"

text \<open>A class that carries one of the two marker types.\<close>

definition marker :: "world \<Rightarrow> cid \<Rightarrow> bool" where
  "marker w c = (issubclass w c Configurable \<or> issubclass w c ReplaceableBase)"

text \<open>\<open>frame P w w'\<close>: from \<open>w\<close> to \<open>w'\<close> only the class objects in \<open>P\<close> may have changed,
  no class has changed its name, its bases or its method resolution order, the
  registry is the same and no warning has been lost.\<close>

definition frame :: "(cid \<Rightarrow> bool) \<Rightarrow> world \<Rightarrow> world \<Rightarrow> bool" where
  "frame P w w' =
     ((\<forall>c. \<not> P c \<longrightarrow> classes w' c = classes w c)
      \<and> (\<forall>c. cname (classes w' c) = cname (classes w c)
             \<and> bases (classes w' c) = bases (classes w c)
             \<and> mro (classes w' c) = mro (classes w c))
      \<and> registry w' = registry w \<and> user_code w' = user_code w
      \<and> set (warnings w) \<subseteq> set (warnings w'))"

definition unsealed_marker :: "world \<Rightarrow> cid \<Rightarrow> bool" where
  "unsealed_marker w c = (\<not> is_actually_dataclass w c \<and> marker w c)"

text \<open>The classes of Scenario A after \<^verbatim>\<open>get_default_args(B)\<close>, and the state they are in.\<close>

definition sealed_A :: pyclass where
  "sealed_A = class_A
     \<lparr>attrs := [(''__init__'', VInit cls_A)], cls_creation_functions := Some [],
      cls_processed_members := Some {}, cls_known_implementations := Some [],
      dataclass_fields := Some []\<rparr>"

definition sealed_A1 :: pyclass where
  "sealed_A1 = class_A1
     \<lparr>attrs := [(''m'', VInt 3), (''__init__'', VInit cls_A1)], cls_creation_functions := Some [],
      cls_processed_members := Some {}, cls_known_implementations := Some [],
      dataclass_fields := Some [(''m'', VClass int_c, Some (VInt 3))]\<rparr>"

definition sealed_A2 :: pyclass where
  "sealed_A2 = class_A2
     \<lparr>attrs := [(''n'', VStr ''2''), (''__init__'', VInit cls_A2)], cls_creation_functions := Some [],
      cls_processed_members := Some {}, cls_known_implementations := Some [],
      dataclass_fields := Some [(''n'', VClass str_c, Some (VStr ''2''))]\<rparr>"

definition sealed_B :: pyclass where
  "sealed_B = class_B
     \<lparr>annotations := Some [(''a_class_type'', VClass str_c), (''a_A1_args'', VClass DictConfig_c),
                           (''a_A2_args'', VClass DictConfig_c)],
      attrs := [(''a_class_type'', VStr ''A2''), (''__post_init__'', VRunAutoCreation),
                (''create_a'', VCreate ''a'' cls_A True), (''__init__'', VInit cls_B)],
      cls_creation_functions := Some [''create_a''],
      cls_processed_members := Some {''a''},
      cls_known_implementations := Some [(''A1'', cls_A1), (''A2'', cls_A2)],
      dataclass_fields :=
        Some [(''a_class_type'', VClass str_c, Some (VStr ''A2'')),
              (''a_A1_args'', VClass DictConfig_c, Some (VField (VClass cls_A1) [cls_B])),
              (''a_A2_args'', VClass DictConfig_c, Some (VField (VClass cls_A2) [cls_B]))]\<rparr>"

definition processed :: world where
  "processed = scenario_A
     \<lparr>classes := builtin_classes(cls_B := sealed_B, cls_A := sealed_A, cls_A1 := sealed_A1,
                                  cls_A2 := sealed_A2)\<rparr>"

text \<open>The keyword arguments \<^verbatim>\<open>**tree\<close> of the Scenario A tree, and of the pruned tree.\<close>

definition scenario_kwargs :: "(string \<times> val) list" where
  "scenario_kwargs =
     [(''a_class_type'', VStr ''A2''),
      (''a_A1_args'', VDict [(SKey ''m'', VInt 3)]),
      (''a_A2_args'', VDict [(SKey ''n'', VStr ''2'')])]"

definition pruned_kwargs :: "(string \<times> val) list" where
  "pruned_kwargs =
     [(''a_class_type'', VStr ''A2''), (''a_A2_args'', VDict [(SKey ''n'', VStr ''2'')])]"

text \<open>A second class called \<^verbatim>\<open>A2\<close> is declared and registered after \<^verbatim>\<open>B\<close> has been
  processed: \<^verbatim>\<open>@registry.register class A2(A): n: str = "new"\<close>.\<close>

definition class_A2_new :: pyclass where
  "class_A2_new = (plain_class ''A2'' [cls_A] [Cls 4, cls_A, ReplaceableBase, object_c])
     \<lparr>annotations := Some [(''n'', VClass str_c)], attrs := [(''n'', VStr ''new'')]\<rparr>"

definition redeclared :: world where
  "redeclared = processed\<lparr>classes := (classes processed)(Cls 4 := class_A2_new)\<rparr>"

definition redefined :: world where
  "redefined = snd (registry_register redeclared (Cls 4))"


text \<open>
  The name \<^verbatim>\<open>f"{name}_{derived_type.__name__}{ARGS_SUFFIX}"\<close> of the field generated for one
  implementation, and the implementations of the list \<^verbatim>\<open>registry.get_all(type_)\<close> that the
  loop of the pluggable branch does not skip.
\<close>

definition args_name :: "world \<Rightarrow> string \<Rightarrow> cid \<Rightarrow> string" where
  "args_name w name d = name @ ''_'' @ cname (classes w d) @ ARGS_SUFFIX"

definition offered :: "world \<Rightarrow> cid \<Rightarrow> cid list \<Rightarrow> cid list \<Rightarrow> cid list" where
  "offered w C dnp derived = filter (\<lambda>d. d \<notin> set dnp \<and> \<not> issubclass w d C) derived"

text \<open>The annotation keys that the pluggable branch adds for a member.\<close>

definition new_annotation_keys :: "world \<Rightarrow> string \<Rightarrow> cid \<Rightarrow> cid \<Rightarrow> cid list \<Rightarrow> string set" where
  "new_annotation_keys w name ty C dnp =
     (case registry_get_all w ty of
        Inl _ \<Rightarrow> {}
      | Inr derived \<Rightarrow>
          insert (name @ TYPE_SUFFIX) (args_name w name ` set (offered w C dnp derived)))"




text \<open>
  Classes that nest each other, declared in a fresh process and not expanded:
  \<^verbatim>\<open>class P(Configurable): q: Q\<close> and \<^verbatim>\<open>class Q(Configurable): p: P\<close>, which form a cycle of
  length two; \<^verbatim>\<open>class S(ReplaceableBase): s: S\<close> and \<^verbatim>\<open>class R(Configurable): r: R\<close>, which
  declare a member of their own type.
\<close>

abbreviation cls_P :: cid where "cls_P \<equiv> Cls 7"
abbreviation cls_Q :: cid where "cls_Q \<equiv> Cls 8"
abbreviation cls_S :: cid where "cls_S \<equiv> Cls 9"
abbreviation cls_R :: cid where "cls_R \<equiv> Cls 10"

definition class_P :: pyclass where
  "class_P = (plain_class ''P'' [Configurable] [cls_P, Configurable, object_c])
     \<lparr>annotations := Some [(''q'', VClass cls_Q)]\<rparr>"

definition class_Q :: pyclass where
  "class_Q = (plain_class ''Q'' [Configurable] [cls_Q, Configurable, object_c])
     \<lparr>annotations := Some [(''p'', VClass cls_P)]\<rparr>"

definition class_S :: pyclass where
  "class_S = (plain_class ''S'' [ReplaceableBase] [cls_S, ReplaceableBase, object_c])
     \<lparr>annotations := Some [(''s'', VClass cls_S)]\<rparr>"

definition class_R :: pyclass where
  "class_R = (plain_class ''R'' [Configurable] [cls_R, Configurable, object_c])
     \<lparr>annotations := Some [(''r'', VClass cls_R)]\<rparr>"

definition cyclic :: world where
  "cyclic =
     \<lparr>classes = builtin_classes(cls_P := class_P, cls_Q := class_Q, cls_S := class_S,
                                 cls_R := class_R),
      registry = (\<lambda>b. []), warnings = [], user_code = (\<lambda>k self. Inr self)\<rparr>"

text \<open>The state after \<^verbatim>\<open>expand_args_fields(P)\<close> and then \<^verbatim>\<open>expand_args_fields(Q)\<close>.\<close>

definition both_expanded :: world where
  "both_expanded =
     snd (expand_args_fields (Suc 0) cls_Q [] (snd (expand_args_fields (Suc 0) cls_P [] cyclic)))"

text \<open>
  The situation the staleness test of \<^verbatim>\<open>inner_pluggable\<close> detects: the instance selects the
  name \<open>tn\<close> for its member, the registry resolves it to \<open>chosen\<close>, and the class of the
  instance recorded another class under that name when it was processed.
\<close>

definition stale_member :: "world \<Rightarrow> val \<Rightarrow> string \<Rightarrow> cid \<Rightarrow> string \<Rightarrow> cid \<Rightarrow> bool" where
  "stale_member w self name ty tn chosen =
     (inst_getattr w self (name @ TYPE_SUFFIX) = Some (VStr tn)
      \<and> registry_get w ty tn = Inr chosen
      \<and> (case inst_class_attr w self cls_known_implementations of
            None \<Rightarrow> False
          | Some known \<Rightarrow> stale known tn chosen))"

section \<open>Default configuration trees as objects\<close>

text \<open>
  Whether the tree \<^verbatim>\<open>get_default_args\<close> returns is a new object, and whether the default
  values of a function are left alone, cannot be read off a value: it is a matter of which
  object is which.  So here the containers have an identity.  A reference is a literal
  (\<open>Lit v\<close>: an object without mutable state, such as \<^verbatim>\<open>None\<close>, a number, a string or a
  class, or a constant held by a class) or the address of an object of the heap: a Python
  \<^verbatim>\<open>list\<close> or \<^verbatim>\<open>dict\<close>, an OmegaConf \<^verbatim>\<open>ListConfig\<close> or \<^verbatim>\<open>DictConfig\<close> node, or a function with
  the default values of its parameters.  The state is the process state of before together
  with the heap; the objects that exist are those at the addresses below \<open>next_addr\<close>, and
  a new object gets the address \<open>next_addr\<close>.
\<close>

type_synonym addr = nat

datatype href = Lit val | Ptr addr

datatype hobj =
    HList "href list"
  | HDict "(ckey \<times> href) list"
  | HListConfig "href list"
  | HDictConfig "(ckey \<times> href) list"
  | HFunc "(string \<times> href option) list"

record store =
  globals :: world
  heap :: "addr \<Rightarrow> hobj"
  next_addr :: addr

text \<open>The creation of an object.\<close>

definition alloc :: "hobj \<Rightarrow> store \<Rightarrow> href \<times> store" where
  "alloc obj s =
     (Ptr (next_addr s), s\<lparr>heap := (heap s)(next_addr s := obj), next_addr := Suc (next_addr s)\<rparr>)"

text \<open>
  \<^verbatim>\<open>copy.deepcopy\<close>: an object without mutable state and a function are returned as they
  are; a container is copied into a new container, its elements copied first, one call
  deeper.  (The memo of \<^verbatim>\<open>deepcopy\<close>, which keeps the sharing between the parts of one value,
  is left out: the copy is only read by \<^verbatim>\<open>DictConfig(kwargs)\<close>, which makes a node for every
  occurrence.)
\<close>

fun deepcopy :: "nat \<Rightarrow> href \<Rightarrow> store \<Rightarrow> (error + href) \<times> store"
and deepcopy_all :: "nat \<Rightarrow> href list \<Rightarrow> store \<Rightarrow> (error + href list) \<times> store" where
  "deepcopy n (Lit v) s = (Inr (Lit v), s)"
| "deepcopy 0 (Ptr a) s = (Inl RecursionError, s)"
| "deepcopy (Suc n) (Ptr a) s =
     (case heap s a of
        HFunc params \<Rightarrow> (Inr (Ptr a), s)
      | HList xs \<Rightarrow>
          (case deepcopy_all n xs s of
             (Inl e, s1) \<Rightarrow> (Inl e, s1)
           | (Inr ys, s1) \<Rightarrow> (case alloc (HList ys) s1 of (y, s2) \<Rightarrow> (Inr y, s2)))
      | HListConfig xs \<Rightarrow>
          (case deepcopy_all n xs s of
             (Inl e, s1) \<Rightarrow> (Inl e, s1)
           | (Inr ys, s1) \<Rightarrow> (case alloc (HListConfig ys) s1 of (y, s2) \<Rightarrow> (Inr y, s2)))
      | HDict d \<Rightarrow>
          (case deepcopy_all n (map snd d) s of
             (Inl e, s1) \<Rightarrow> (Inl e, s1)
           | (Inr ys, s1) \<Rightarrow>
               (case alloc (HDict (zip (map fst d) ys)) s1 of (y, s2) \<Rightarrow> (Inr y, s2)))
      | HDictConfig d \<Rightarrow>
          (case deepcopy_all n (map snd d) s of
             (Inl e, s1) \<Rightarrow> (Inl e, s1)
           | (Inr ys, s1) \<Rightarrow>
               (case alloc (HDictConfig (zip (map fst d) ys)) s1 of (y, s2) \<Rightarrow> (Inr y, s2))))"
| "deepcopy_all n [] s = (Inr [], s)"
| "deepcopy_all n (x # xs) s =
     (case deepcopy n x s of
        (Inl e, s1) \<Rightarrow> (Inl e, s1)
      | (Inr y, s1) \<Rightarrow>
          (case deepcopy_all n xs s1 of
             (Inl e, s2) \<Rightarrow> (Inl e, s2)
           | (Inr ys, s2) \<Rightarrow> (Inr (y # ys), s2)))"

text \<open>
  The node OmegaConf makes of a constant: a \<^verbatim>\<open>DictConfig\<close> or a \<^verbatim>\<open>ListConfig\<close> for a
  container, its elements first, the constant itself otherwise; a value of a type it does
  not support is refused.
\<close>

fun materialise :: "nat \<Rightarrow> val \<Rightarrow> store \<Rightarrow> (error + href) \<times> store"
and materialise_all :: "nat \<Rightarrow> val list \<Rightarrow> store \<Rightarrow> (error + href list) \<times> store" where
  "materialise n v s =
     (if \<not> supported_value v then (Inl (ValueError ''UnsupportedValueType''), s)
      else case v of
        VDict d \<Rightarrow>
          (case n of
             0 \<Rightarrow> (Inl RecursionError, s)
           | Suc m \<Rightarrow>
               (case materialise_all m (map snd d) s of
                  (Inl e, s1) \<Rightarrow> (Inl e, s1)
                | (Inr ys, s1) \<Rightarrow>
                    (case alloc (HDictConfig (zip (map fst d) ys)) s1 of (y, s2) \<Rightarrow> (Inr y, s2))))
      | VList xs \<Rightarrow>
          (case n of
             0 \<Rightarrow> (Inl RecursionError, s)
           | Suc m \<Rightarrow>
               (case materialise_all m xs s of
                  (Inl e, s1) \<Rightarrow> (Inl e, s1)
                | (Inr ys, s1) \<Rightarrow> (case alloc (HListConfig ys) s1 of (y, s2) \<Rightarrow> (Inr y, s2))))
      | _ \<Rightarrow> (Inr (Lit v), s))"
| "materialise_all n [] s = (Inr [], s)"
| "materialise_all n (x # xs) s =
     (case materialise n x s of
        (Inl e, s1) \<Rightarrow> (Inl e, s1)
      | (Inr y, s1) \<Rightarrow>
          (case materialise_all n xs s1 of
             (Inl e, s2) \<Rightarrow> (Inl e, s2)
           | (Inr ys, s2) \<Rightarrow> (Inr (y # ys), s2)))"

text \<open>
  The node OmegaConf makes of a value it is given: a new \<^verbatim>\<open>ListConfig\<close> for a list or a
  \<^verbatim>\<open>ListConfig\<close>, a new \<^verbatim>\<open>DictConfig\<close> for a dict or a \<^verbatim>\<open>DictConfig\<close>, of the nodes made of the
  elements; a function is a value of a type it does not support.
\<close>

fun wrap :: "nat \<Rightarrow> href \<Rightarrow> store \<Rightarrow> (error + href) \<times> store"
and wrap_all :: "nat \<Rightarrow> href list \<Rightarrow> store \<Rightarrow> (error + href list) \<times> store" where
  "wrap n (Lit v) s = materialise n v s"
| "wrap 0 (Ptr a) s = (Inl RecursionError, s)"
| "wrap (Suc n) (Ptr a) s =
     (case heap s a of
        HFunc params \<Rightarrow> (Inl (ValueError ''UnsupportedValueType''), s)
      | HList xs \<Rightarrow>
          (case wrap_all n xs s of
             (Inl e, s1) \<Rightarrow> (Inl e, s1)
           | (Inr ys, s1) \<Rightarrow> (case alloc (HListConfig ys) s1 of (y, s2) \<Rightarrow> (Inr y, s2)))
      | HListConfig xs \<Rightarrow>
          (case wrap_all n xs s of
             (Inl e, s1) \<Rightarrow> (Inl e, s1)
           | (Inr ys, s1) \<Rightarrow> (case alloc (HListConfig ys) s1 of (y, s2) \<Rightarrow> (Inr y, s2)))
      | HDict d \<Rightarrow>
          (case wrap_all n (map snd d) s of
             (Inl e, s1) \<Rightarrow> (Inl e, s1)
           | (Inr ys, s1) \<Rightarrow>
               (case alloc (HDictConfig (zip (map fst d) ys)) s1 of (y, s2) \<Rightarrow> (Inr y, s2)))
      | HDictConfig d \<Rightarrow>
          (case wrap_all n (map snd d) s of
             (Inl e, s1) \<Rightarrow> (Inl e, s1)
           | (Inr ys, s1) \<Rightarrow>
               (case alloc (HDictConfig (zip (map fst d) ys)) s1 of (y, s2) \<Rightarrow> (Inr y, s2))))"
| "wrap_all n [] s = (Inr [], s)"
| "wrap_all n (x # xs) s =
     (case wrap n x s of
        (Inl e, s1) \<Rightarrow> (Inl e, s1)
      | (Inr y, s1) \<Rightarrow>
          (case wrap_all n xs s1 of
             (Inl e, s2) \<Rightarrow> (Inl e, s2)
           | (Inr ys, s2) \<Rightarrow> (Inr (y # ys), s2)))"

text \<open>
  The loop of \<^verbatim>\<open>get_default_args\<close> over \<^verbatim>\<open>sig.parameters\<close>: a parameter without default is
  skipped, and \<^verbatim>\<open>kwargs[pname] = copy.deepcopy(defval.default)\<close> otherwise.
\<close>

fun copy_defaults ::
  "nat \<Rightarrow> (string \<times> href option) list \<Rightarrow> store \<Rightarrow> (error + (ckey \<times> href) list) \<times> store" where
  "copy_defaults n [] s = (Inr [], s)"
| "copy_defaults n ((pname, None) # params) s = copy_defaults n params s"
| "copy_defaults n ((pname, Some x) # params) s =
     (case deepcopy n x s of
        (Inl e, s1) \<Rightarrow> (Inl e, s1)
      | (Inr y, s1) \<Rightarrow>
          (case copy_defaults n params s1 of
             (Inl e, s2) \<Rightarrow> (Inl e, s2)
           | (Inr kwargs, s2) \<Rightarrow> (Inr ((SKey pname, y) # kwargs), s2)))"

text \<open>\<^verbatim>\<open>DictConfig(kwargs)\<close>.\<close>

definition new_DictConfig ::
  "nat \<Rightarrow> (ckey \<times> href) list \<Rightarrow> store \<Rightarrow> (error + href) \<times> store" where
  "new_DictConfig n kwargs s =
     (case wrap_all n (map snd kwargs) s of
        (Inl e, s1) \<Rightarrow> (Inl e, s1)
      | (Inr ys, s1) \<Rightarrow>
          (case alloc (HDictConfig (zip (map fst kwargs) ys)) s1 of (y, s2) \<Rightarrow> (Inr y, s2)))"

text \<open>The loop \<^verbatim>\<open>for field in exclude: out.pop(field, None)\<close> on the node \<^verbatim>\<open>out\<close>.\<close>

definition pop_fields :: "string set \<Rightarrow> href \<Rightarrow> store \<Rightarrow> store" where
  "pop_fields exclude out s =
     (case out of
        Ptr a \<Rightarrow>
          (case heap s a of
             HDictConfig d \<Rightarrow>
               s\<lparr>heap := (heap s)(a := HDictConfig
                    (filter (\<lambda>item. case fst item of SKey field \<Rightarrow> field \<notin> exclude
                                                      | OKey _ \<Rightarrow> True) d))\<rparr>
           | _ \<Rightarrow> s)
      | Lit _ \<Rightarrow> s)"

text \<open>
  \<^verbatim>\<open>get_default_args\<close> on these objects.  For a target that is a literal the steps are those
  of \<open>get_default_args\<close> above, on the process state, and the nodes of the tree are created:
  \<^verbatim>\<open>DictConfig({})\<close> for \<^verbatim>\<open>None\<close>; for a dataclass the node \<^verbatim>\<open>OmegaConf.structured(C)\<close> of the
  values of the fields, from which the processed members are then popped; else the node of
  the defaulted parameters.  For a target in the heap, a function, the default values are
  copied and \<^verbatim>\<open>DictConfig(kwargs)\<close> is returned; another object of the heap is not callable.
\<close>

function get_default_args_store ::
  "nat \<Rightarrow> href \<Rightarrow> cid list \<Rightarrow> store \<Rightarrow> (error + href) \<times> store"
and structured_fields_store ::
  "nat \<Rightarrow> (string \<times> val \<times> val option) list \<Rightarrow> store \<Rightarrow> (error + (ckey \<times> href) list) \<times> store"
and field_default_store :: "nat \<Rightarrow> val option \<Rightarrow> store \<Rightarrow> (error + href) \<times> store" where
  "get_default_args_store n C dnp s =
     (case C of
        Lit Cv \<Rightarrow>
          if Cv = VNone then (case alloc (HDictConfig []) s of (y, s1) \<Rightarrow> (Inr y, s1))
          else
            (case ensure_processed n Cv dnp (globals s) of
               (Inl e, w1) \<Rightarrow> (Inl e, s\<lparr>globals := w1\<rparr>)
             | (Inr _, w1) \<Rightarrow>
                 (case fields_of w1 Cv of
                    Some flds \<Rightarrow>
                      (case structured_fields_store n flds (s\<lparr>globals := w1\<rparr>) of
                         (Inl e, s2) \<Rightarrow> (Inl e, s2)
                       | (Inr items, s2) \<Rightarrow>
                           (case alloc (HDictConfig items) s2 of
                              (out, s3) \<Rightarrow>
                                (Inr out, pop_fields (exclude_of (globals s3) Cv) out s3)))
                  | None \<Rightarrow>
                      (case signature_defaults w1 Cv of
                         Inl e \<Rightarrow> (Inl e, s\<lparr>globals := w1\<rparr>)
                       | Inr kwargs \<Rightarrow> materialise n kwargs (s\<lparr>globals := w1\<rparr>))))
      | Ptr a \<Rightarrow>
          (case heap s a of
             HFunc params \<Rightarrow>
               (case copy_defaults n params s of
                  (Inl e, s1) \<Rightarrow> (Inl e, s1)
                | (Inr kwargs, s1) \<Rightarrow> new_DictConfig n kwargs s1)
           | _ \<Rightarrow> (Inl (TypeError ''is not a callable object''), s)))"
| "structured_fields_store n [] s = (Inr [], s)"
| "structured_fields_store n ((name, ty, d) # fs) s =
     (case field_default_store n d s of
        (Inl e, s1) \<Rightarrow> (Inl e, s1)
      | (Inr y, s1) \<Rightarrow>
          (case structured_fields_store n fs s1 of
             (Inl e, s2) \<Rightarrow> (Inl e, s2)
           | (Inr rest, s2) \<Rightarrow> (Inr ((SKey name, y) # rest), s2)))"
| "field_default_store n d s =
     (case d of
        None \<Rightarrow> (Inr (Lit VMissing), s)
      | Some (VField C dnp) \<Rightarrow>
          (case n of
             0 \<Rightarrow> (Inl RecursionError, s)
           | Suc m \<Rightarrow> get_default_args_store m (Lit C) dnp s)
      | Some v \<Rightarrow> materialise n v s)"
  by pat_completeness auto
termination
  by (relation "inv_image (less_than <*lex*> less_than <*lex*> less_than)
        (\<lambda>x. case x of
              Inl (n, C, dnp, s) \<Rightarrow> (n, 2::nat, 0::nat)
            | Inr (Inl (n, flds, s)) \<Rightarrow> (n, 1, length flds)
            | Inr (Inr (n, d, s)) \<Rightarrow> (n, 0, 0))")
     auto

text \<open>The references an object holds.\<close>

definition refs_of :: "hobj \<Rightarrow> href list" where
  "refs_of obj =
     (case obj of
        HList xs \<Rightarrow> xs
      | HDict d \<Rightarrow> map snd d
      | HListConfig xs \<Rightarrow> xs
      | HDictConfig d \<Rightarrow> map snd d
      | HFunc params \<Rightarrow> List.map_filter snd params)"

text \<open>
  \<open>fresh_tree k n h x\<close>: the reference \<open>x\<close> is a literal, or the address of an object
  created at an address from \<open>k\<close> up to \<open>n\<close> (\<open>n\<close> excluded) that holds such references
  only.  With \<open>k\<close> the \<open>next_addr\<close> before a call and \<open>n\<close> the one after it, every object
  reached from \<open>x\<close> has been created by the call.
\<close>

inductive fresh_tree :: "addr \<Rightarrow> addr \<Rightarrow> (addr \<Rightarrow> hobj) \<Rightarrow> href \<Rightarrow> bool" for k n h where
  lit: "fresh_tree k n h (Lit v)"
| node: "k \<le> a \<Longrightarrow> a < n \<Longrightarrow> \<forall>x \<in> set (refs_of (h a)). fresh_tree k n h x
           \<Longrightarrow> fresh_tree k n h (Ptr a)"

text \<open>
  \<open>denotes h x v\<close>: read as a value, the configuration tree at \<open>x\<close> in the heap \<open>h\<close> is the
  \<^verbatim>\<open>DictConfig\<close> value \<open>v\<close> of the sections above.
\<close>

inductive denotes :: "(addr \<Rightarrow> hobj) \<Rightarrow> href \<Rightarrow> val \<Rightarrow> bool" for h where
  lit: "denotes h (Lit v) v"
| dictconfig: "h a = HDictConfig items
     \<Longrightarrow> list_all2 (\<lambda>x y. fst x = fst y \<and> denotes h (snd x) (snd y)) items d
     \<Longrightarrow> denotes h (Ptr a) (VDict d)"
| listconfig: "h a = HListConfig xs \<Longrightarrow> list_all2 (denotes h) xs vs
     \<Longrightarrow> denotes h (Ptr a) (VList vs)"

text \<open>
  From \<open>s\<close> to \<open>s'\<close> objects have been created and no object that existed has changed;
  \<open>heap_step\<close> when the process state is the same, \<open>store_step\<close> when classes that were
  unprocessed marker classes may have changed.  \<open>built\<close> and \<open>made\<close> say in addition that
  the given references are trees of objects created on the way.
\<close>

definition heap_step :: "store \<Rightarrow> store \<Rightarrow> bool" where
  "heap_step s s' =
     (next_addr s \<le> next_addr s' \<and> (\<forall>a < next_addr s. heap s' a = heap s a)
      \<and> globals s' = globals s)"

definition built :: "store \<Rightarrow> store \<Rightarrow> href list \<Rightarrow> bool" where
  "built s s' ys =
     (heap_step s s' \<and> (\<forall>y \<in> set ys. fresh_tree (next_addr s) (next_addr s') (heap s') y))"

definition store_step :: "store \<Rightarrow> store \<Rightarrow> bool" where
  "store_step s s' =
     (next_addr s \<le> next_addr s' \<and> (\<forall>a < next_addr s. heap s' a = heap s a)
      \<and> frame (unsealed_marker (globals s)) (globals s) (globals s'))"

definition made :: "store \<Rightarrow> store \<Rightarrow> href list \<Rightarrow> bool" where
  "made s s' ys =
     (store_step s s' \<and> (\<forall>y \<in> set ys. fresh_tree (next_addr s) (next_addr s') (heap s') y))"

text \<open>
  A function \<^verbatim>\<open>def f(x, y=5, z=[1, {"k": "v"}])\<close> at address \<open>0\<close>, the list at \<open>1\<close> and the
  dict at \<open>2\<close>, in a process where the classes of Scenario A have been processed.
\<close>

definition example_heap :: "addr \<Rightarrow> hobj" where
  "example_heap =
     (\<lambda>a. HList [])
       (0 := HFunc [(''x'', None), (''y'', Some (Lit (VInt 5))), (''z'', Some (Ptr 1))],
        1 := HList [Lit (VInt 1), Ptr 2],
        2 := HDict [(SKey ''k'', Lit (VStr ''v''))])"

definition example_store :: store where
  "example_store = \<lparr>globals = processed, heap = example_heap, next_addr = 3\<rparr>"

section \<open>Properties of the registry\<close>

lemma registry_get_Inr_iff:
  "registry_get w wanted name = Inr c \<longleftrightarrow>
     (\<exists>b. namespace_of w wanted = Some b \<and> map_of (registry w b) name = Some c
          \<and> issubclass w c wanted)"
  by (auto simp: registry_get_def namespace_of_def split: option.splits if_splits)

lemma registry_get_Inl_iff:
  "(\<exists>e. registry_get w wanted name = Inl e) \<longleftrightarrow>
     (namespace_of w wanted = None
      \<or> (\<exists>b. namespace_of w wanted = Some b \<and> map_of (registry w b) name = None)
      \<or> (\<exists>b c. namespace_of w wanted = Some b \<and> map_of (registry w b) name = Some c
                \<and> \<not> issubclass w c wanted))"
  by (auto simp: registry_get_def namespace_of_def split: option.splits if_splits)

lemma register'_entry:
  assumes "register' w c (Some b) name = (Inr u, w')"
  shows "map_of (registry w' b) name = Some c"
    and "b' \<noteq> b \<Longrightarrow> registry w' b' = registry w b'"
    and "name' \<noteq> name \<Longrightarrow> map_of (registry w' b) name' = map_of (registry w b) name'"
    and "classes w' = classes w"
  using assms by (auto simp: register'_def update_conv' split: if_splits)

text \<open>
  Claim C3.  \<^verbatim>\<open>registry.get(requestedBase, name)\<close> raises exactly when no namespace root can
  be derived from the requested base, or the name is absent from that namespace, or the
  class found is not a subclass of the requested base; otherwise it returns the class
  registered under the name.  Entries under one name in two namespaces do not collide:
  both are kept, and a name registered in one namespace only is not found through a base
  of the other.
\<close>

theorem registry_get_semantics:
  "((\<exists>e. registry_get w wanted name = Inl e) \<longleftrightarrow>
      (namespace_of w wanted = None
       \<or> (\<exists>b. namespace_of w wanted = Some b \<and> map_of (registry w b) name = None)
       \<or> (\<exists>b c. namespace_of w wanted = Some b \<and> map_of (registry w b) name = Some c
                 \<and> \<not> issubclass w c wanted)))
   \<and> (registry_get w wanted name = Inr c \<longleftrightarrow>
        (\<exists>b. namespace_of w wanted = Some b \<and> map_of (registry w b) name = Some c
             \<and> issubclass w c wanted))
   \<and> (b1 \<noteq> b2 \<and> register' v c1 (Some b1) name = (Inr (), v1)
        \<and> register' v1 c2 (Some b2) name = (Inr (), v2)
      \<longrightarrow> map_of (registry v2 b1) name = Some c1 \<and> map_of (registry v2 b2) name = Some c2)
   \<and> (b1 \<noteq> b2 \<and> register' v c1 (Some b1) name = (Inr (), v1)
        \<and> map_of (registry v b2) name = None \<and> namespace_of v1 other = Some b2
      \<longrightarrow> registry_get v1 other name = Inl (ValueError (name @ '' has not been registered.'')))"
proof (intro conjI impI)
  show "(\<exists>e. registry_get w wanted name = Inl e) \<longleftrightarrow>
      (namespace_of w wanted = None
       \<or> (\<exists>b. namespace_of w wanted = Some b \<and> map_of (registry w b) name = None)
       \<or> (\<exists>b c. namespace_of w wanted = Some b \<and> map_of (registry w b) name = Some c
                 \<and> \<not> issubclass w c wanted))"
    by (rule registry_get_Inl_iff)
  show "registry_get w wanted name = Inr c \<longleftrightarrow>
        (\<exists>b. namespace_of w wanted = Some b \<and> map_of (registry w b) name = Some c
             \<and> issubclass w c wanted)"
    by (rule registry_get_Inr_iff)
next
  assume a: "b1 \<noteq> b2 \<and> register' v c1 (Some b1) name = (Inr (), v1)
        \<and> register' v1 c2 (Some b2) name = (Inr (), v2)"
  then have r1: "register' v c1 (Some b1) name = (Inr (), v1)"
    and r2: "register' v1 c2 (Some b2) name = (Inr (), v2)" and ne: "b1 \<noteq> b2" by auto
  from register'_entry(2)[OF r2, of b1] ne register'_entry(1)[OF r1]
  show "map_of (registry v2 b1) name = Some c1" by simp
  from register'_entry(1)[OF r2] show "map_of (registry v2 b2) name = Some c2" .
next
  assume a: "b1 \<noteq> b2 \<and> register' v c1 (Some b1) name = (Inr (), v1)
        \<and> map_of (registry v b2) name = None \<and> namespace_of v1 other = Some b2"
  then have r1: "register' v c1 (Some b1) name = (Inr (), v1)" and ne: "b2 \<noteq> b1"
    and n: "map_of (registry v b2) name = None" and ns: "namespace_of v1 other = Some b2"
    by auto
  from register'_entry(2)[OF r1 ne] n have "map_of (registry v1 b2) name = None" by simp
  with ns show "registry_get v1 other name = Inl (ValueError (name @ '' has not been registered.''))"
    by (auto simp: registry_get_def namespace_of_def split: if_splits)
qed

lemmas two_roots_defs = two_roots_def plain_class_def builtin_classes_def register'_def
  registry_register_def base_class_from_class_def issubclass_def is_base_class_def
  namespace_of_def

theorem registry_get_semantics_witness:
  "registry_get (snd (register' (snd (register' two_roots (Cls 12) (Some (Cls 10)) ''Plain''))
                   (Cls 13) (Some (Cls 11)) ''Plain'')) (Cls 10) ''Plain'' = Inr (Cls 12)
   \<and> registry_get (snd (register' (snd (register' two_roots (Cls 12) (Some (Cls 10)) ''Plain''))
                   (Cls 13) (Some (Cls 11)) ''Plain'')) (Cls 11) ''Plain'' = Inr (Cls 13)
   \<and> registry_get (snd (register' two_roots (Cls 12) (Some (Cls 10)) ''Plain'')) (Cls 11) ''Plain''
       = Inl (ValueError ''Plain has not been registered.'')
   \<and> (\<exists>e. registry_get two_roots ReplaceableBase ''Plain'' = Inl e)"
proof -
  let ?w1 = "snd (register' two_roots (Cls 12) (Some (Cls 10)) ''Plain'')"
  let ?w2 = "snd (register' ?w1 (Cls 13) (Some (Cls 11)) ''Plain'')"
  have r1: "register' two_roots (Cls 12) (Some (Cls 10)) ''Plain'' = (Inr (), ?w1)"
    by (simp add: register'_def)
  have r2: "register' ?w1 (Cls 13) (Some (Cls 11)) ''Plain'' = (Inr (), ?w2)"
    by (simp add: register'_def)
  have ne: "Cls 10 \<noteq> Cls 11" by simp
  have ns1: "namespace_of ?w2 (Cls 10) = Some (Cls 10)" "namespace_of ?w2 (Cls 11) = Some (Cls 11)"
    by (simp_all add: two_roots_defs)
  have sub: "issubclass ?w2 (Cls 12) (Cls 10)" "issubclass ?w2 (Cls 13) (Cls 11)"
    by (simp_all add: two_roots_defs)
  have n0: "map_of (registry two_roots (Cls 11)) ''Plain'' = None" by (simp add: two_roots_def)
  have ns2: "namespace_of ?w1 (Cls 11) = Some (Cls 11)" by (simp add: two_roots_defs)
  have ns3: "namespace_of two_roots ReplaceableBase = None" by (simp add: two_roots_defs)
  note T = registry_get_semantics[where ?b1.0 = "Cls 10" and ?b2.0 = "Cls 11" and v = two_roots
      and ?c1.0 = "Cls 12" and ?v1.0 = ?w1 and ?c2.0 = "Cls 13" and ?v2.0 = ?w2
      and name = "''Plain''" and other = "Cls 11"]
  have m: "map_of (registry ?w2 (Cls 10)) ''Plain'' = Some (Cls 12)
        \<and> map_of (registry ?w2 (Cls 11)) ''Plain'' = Some (Cls 13)"
    using T[of ?w2 "Cls 10" "Cls 12"] r1 r2 ne by blast
  have g1: "registry_get ?w2 (Cls 10) ''Plain'' = Inr (Cls 12)"
    using T[of ?w2 "Cls 10" "Cls 12"] m ns1 sub by blast
  have g2: "registry_get ?w2 (Cls 11) ''Plain'' = Inr (Cls 13)"
    using T[of ?w2 "Cls 11" "Cls 13"] m ns1 sub by blast
  have g3: "registry_get ?w1 (Cls 11) ''Plain'' = Inl (ValueError (''Plain'' @ '' has not been registered.''))"
    using T[of ?w2 "Cls 10" "Cls 12"] r1 ne n0 ns2 by blast
  have g4: "\<exists>e. registry_get two_roots ReplaceableBase ''Plain'' = Inl e"
    using T[of two_roots ReplaceableBase "Cls 12"] ns3 by blast
  from g1 g2 g3 g4 show ?thesis by simp
qed

lemmas scenario_defs = scenario_A_def declared_def class_A_def class_A1_def class_A2_def
  class_B_def plain_class_def builtin_classes_def register'_def registry_register_def
  base_class_from_class_def issubclass_def is_base_class_def namespace_of_def

lemma scenario_A_registry:
  "registry scenario_A = (\<lambda>b. [])(cls_A := [(''A1'', cls_A1), (''A2'', cls_A2)])"
  by (simp add: scenario_defs)

lemma scenario_A_classes:
  "classes scenario_A = builtin_classes(cls_A := class_A, cls_A1 := class_A1, cls_A2 := class_A2,
                                 cls_B := class_B)"
  by (simp add: scenario_defs)

lemma set_update_values:
  "set (dict_values (AList.update k v d)) \<subseteq> insert v (set (dict_values d))"
  by (induction d) (auto simp: dict_values_def)

lemma base_class_from_class_mro:
  "base_class_from_class w c = Some b \<Longrightarrow> b \<in> set (mro (classes w c))"
  unfolding base_class_from_class_def
  by (auto simp: find_Some_iff dest!: in_set_takeD nth_mem simp: rev_nth)

lemma register'_classes: "register' w c bo name = (r, w') \<Longrightarrow> classes w' = classes w"
  by (auto simp: register'_def split: option.splits if_splits)

lemma registry_register_ok:
  assumes ok: "registry_ok w" and reg: "registry_register w c = (r, w')"
  shows "registry_ok w'"
proof (cases "base_class_from_class w c")
  case None
  with reg have "w' = w" by (auto simp: registry_register_def register'_def)
  with ok show ?thesis by simp
next
  case (Some b)
  show ?thesis
  proof (cases "c = b")
    case True
    with Some reg have "w' = w" by (auto simp: registry_register_def register'_def)
    with ok show ?thesis by simp
  next
    case False
    with Some reg have w': "w' = w\<lparr>registry := (registry w)(b := AList.update (cname (classes w c)) c (registry w b))\<rparr>"
      by (auto simp: registry_register_def register'_def)
    have sub: "issubclass w c b" using base_class_from_class_mro[OF Some] by (simp add: issubclass_def)
    show ?thesis
      unfolding registry_ok_def
    proof (intro allI ballI)
      fix b' x assume x: "x \<in> set (dict_values (registry w' b'))"
      have iss: "\<And>a d. issubclass w' a d = issubclass w a d" by (simp add: w' issubclass_def)
      show "issubclass w' x b' \<and> x \<noteq> b'"
      proof (cases "b' = b")
        case True
        with x w' have "x \<in> insert c (set (dict_values (registry w b)))"
          using set_update_values[of "cname (classes w c)" c "registry w b"] by auto
        with ok sub False True show ?thesis by (auto simp: registry_ok_def iss)
      next
        case False
        with x w' have "x \<in> set (dict_values (registry w b'))" by simp
        with ok show ?thesis by (auto simp: registry_ok_def iss)
      qed
    qed
  qed
qed

lemma scenario_A_ok: "registry_ok scenario_A"
  by (simp add: registry_ok_def scenario_A_registry scenario_A_classes dict_values_def issubclass_def class_A1_def class_A2_def plain_class_def)

text \<open>
  Claim C4, as amended.  In a registry that \<^verbatim>\<open>register\<close> built, for every requested base
  from which a namespace can be derived, \<^verbatim>\<open>registry.get_all(requestedBase)\<close> returns the
  classes registered in that namespace that are subclasses of the requested base, leaving
  out the requested base itself (not the namespace root).
\<close>

theorem registry_get_all_excludes_wanted:
  "registry_ok w \<Longrightarrow> namespace_of w wanted = Some b \<Longrightarrow>
     registry_get_all w wanted =
       Inr (filter (\<lambda>c. issubclass w c wanted \<and> c \<noteq> wanted) (dict_values (registry w b)))"
proof -
  assume ok: "registry_ok w" and ns: "namespace_of w wanted = Some b"
  show ?thesis
  proof (cases "is_base_class w wanted")
    case True
    with ns have b: "b = wanted" by (simp add: namespace_of_def)
    from ok have "\<forall>c \<in> set (dict_values (registry w wanted)). issubclass w c wanted \<and> c \<noteq> wanted"
      by (simp add: registry_ok_def)
    then have "filter (\<lambda>c. issubclass w c wanted \<and> c \<noteq> wanted) (dict_values (registry w wanted))
               = dict_values (registry w wanted)"
      by (simp add: filter_id_conv)
    with True b show ?thesis by (simp add: registry_get_all_def)
  next
    case False
    with ns show ?thesis by (simp add: registry_get_all_def namespace_of_def)
  qed
qed

theorem registry_get_all_excludes_wanted_witness:
  "registry_ok scenario_A \<and> namespace_of scenario_A cls_A = Some cls_A
   \<and> registry_get_all scenario_A cls_A = Inr [cls_A1, cls_A2]"
proof -
  have ns: "namespace_of scenario_A cls_A = Some cls_A"
    by (simp add: namespace_of_def is_base_class_def scenario_A_classes class_A_def plain_class_def)
  have "filter (\<lambda>c. issubclass scenario_A c cls_A \<and> c \<noteq> cls_A) (dict_values (registry scenario_A cls_A))
        = [cls_A1, cls_A2]"
    by (simp add: scenario_A_registry scenario_A_classes dict_values_def issubclass_def class_A1_def class_A2_def plain_class_def)
  with registry_get_all_excludes_wanted[OF scenario_A_ok ns] scenario_A_ok ns
  show ?thesis by simp
qed

text \<open>
  The claim as written fails: \<^verbatim>\<open>A1\<close> is registered in the namespace of \<^verbatim>\<open>A\<close>, is a subclass
  of the requested base \<^verbatim>\<open>A1\<close> and is not the namespace root, and \<^verbatim>\<open>get_all(A1)\<close> leaves it
  out.
\<close>

theorem registry_get_all_root_counterexample:
  "namespace_of scenario_A cls_A1 = Some cls_A
   \<and> cls_A1 \<in> set (dict_values (registry scenario_A cls_A))
   \<and> issubclass scenario_A cls_A1 cls_A1 \<and> cls_A1 \<noteq> cls_A
   \<and> registry_get_all scenario_A cls_A1 = Inr []"
  by (simp add: namespace_of_def is_base_class_def base_class_from_class_def registry_get_all_def
        scenario_A_registry scenario_A_classes dict_values_def issubclass_def
        class_A_def class_A1_def class_A2_def plain_class_def)

section \<open>Properties of \<^verbatim>\<open>get_default_args\<close> and \<^verbatim>\<open>expand_args_fields\<close>\<close>

text \<open>
  Claim C10.  \<^verbatim>\<open>get_default_args(None)\<close> returns the empty configuration tree and raises
  nothing, at any call depth.
\<close>

theorem get_default_args_None: "get_default_args n VNone dnp w = (Inr (VDict []), w)"
  by simp


lemma dataclass_seals: "dataclass c w = (Inr u, w') \<Longrightarrow> is_actually_dataclass w' c"
  unfolding dataclass_def Let_def
  by (auto simp: is_actually_dataclass_def upd_class_def class_setattr_def
           split: prod.splits sum.splits if_splits)

lemma expand_seals:
  "expand_args_fields n c dnp w = (Inr u, w') \<Longrightarrow> is_actually_dataclass w' c"
proof (cases n)
  case 0
  assume "expand_args_fields n c dnp w = (Inr u, w')"
  with 0 show ?thesis by (auto split: if_splits)
next
  case (Suc k)
  assume e: "expand_args_fields n c dnp w = (Inr u, w')"
  show ?thesis
  proof (cases "is_actually_dataclass w c")
    case True
    with e Suc show ?thesis by auto
  next
    case False
    with e Suc obtain acc w2 where "seal c acc w2 = (Inr u, w')"
      by (auto split: prod.splits sum.splits)
    then show ?thesis by (auto simp: seal_def dest: dataclass_seals split: prod.splits)
  qed
qed

lemma expand_sealed: "is_actually_dataclass w c \<Longrightarrow> expand_args_fields n c dnp w = (Inr (), w)"
  by (cases n) auto

text \<open>
  Claim C2.  \<^verbatim>\<open>expand_args_fields\<close> on a class that is already a dataclass returns at once
  and leaves the whole state as it is: the fields, the creation functions and every other
  attribute of every class.  A class that has been expanded successfully is in that
  case, so expanding it a second time changes nothing.
\<close>

theorem expand_args_fields_idempotent:
  "(is_actually_dataclass w c \<longrightarrow> expand_args_fields n c dnp w = (Inr (), w))
   \<and> (expand_args_fields n c dnp w = (Inr (), w')
        \<longrightarrow> expand_args_fields m c dnp' w' = (Inr (), w'))"
  using expand_sealed expand_seals by blast

lemmas eval_defs = is_actually_dataclass_def to_process_def seal_def dataclass_def
  upd_class_def class_setattr_def set_annotation_def own_annotations_def warn_def
  issubclass_def is_base_class_def base_class_from_class_def registry_get_all_def
  registry_get_def dict_values_def dict_update_def mro_lookup_def class_getattr_def
  inherited_fields_def get_field_def is_field_def clashes_def merge_base_def
  process_member_def add_creation_function_def classify_def map_filter_simps
  TYPE_SUFFIX_def ARGS_SUFFIX_def plain_class_def builtin_classes_def
  class_A_def class_A1_def class_A2_def class_B_def
  is_configurable_class_def scenario_A_registry scenario_A_classes

theorem expand_args_fields_idempotent_witness:
  "fst (expand_args_fields (Suc 0) cls_B [] scenario_A) = Inr ()
   \<and> expand_args_fields 0 cls_B [] (snd (expand_args_fields (Suc 0) cls_B [] scenario_A))
       = (Inr (), snd (expand_args_fields (Suc 0) cls_B [] scenario_A))"
proof -
  have a: "fst (expand_args_fields (Suc 0) cls_B [] scenario_A) = Inr ()"
    by (simp add: eval_defs)
  then have "expand_args_fields (Suc 0) cls_B [] scenario_A
             = (Inr (), snd (expand_args_fields (Suc 0) cls_B [] scenario_A))"
    by (metis prod.collapse)
  with expand_args_fields_idempotent[of scenario_A cls_B "Suc 0" "[]"
         "snd (expand_args_fields (Suc 0) cls_B [] scenario_A)" 0 "[]"] a
  show ?thesis by simp
qed

section \<open>Properties of \<^verbatim>\<open>remove_unused_components\<close>\<close>

lemma map_of_filter_fst:
  "map_of (filter (\<lambda>item. P (fst item)) d) k = (if P k then map_of d k else None)"
  by (induction d) auto

lemma prune_keys_filter:
  "prune_keys r e ks d = Inr d' \<Longrightarrow>
     d' = filter (\<lambda>item. \<not> (\<exists>key \<in> set ks. fst item = SKey key \<and> startswith key (r @ ''_'') \<and> key \<noteq> e)) d"
proof (induction ks arbitrary: d)
  case Nil
  then show ?case by simp
next
  case (Cons key ks)
  show ?case
  proof (cases "startswith key (r @ ''_'') \<and> key \<noteq> e")
    case True
    with Cons.prems have "prune_keys r e ks (AList.delete (SKey key) d) = Inr d'"
      by (simp split: if_splits)
    from Cons.IH[OF this] True show ?thesis
      by (auto simp: AList.delete_eq intro!: filter_cong)
  next
    case False
    with Cons.prems have "prune_keys r e ks d = Inr d'" by auto
    from Cons.IH[OF this] False show ?thesis
      by (auto intro!: filter_cong)
  qed
qed

lemma type_key_not_args: "\<not> endswith (r @ TYPE_SUFFIX) ARGS_SUFFIX"
  by (simp add: endswith_def TYPE_SUFFIX_def ARGS_SUFFIX_def)

lemma prune_replaceables_filter:
  assumes "\<forall>key \<in> set ks. endswith key ARGS_SUFFIX"
    and "prune_replaceables rs ks d = Inr d'"
  shows "d' = filter (\<lambda>item. \<not> (\<exists>r \<in> set rs. \<exists>key \<in> set ks. fst item = SKey key \<and> selects d r key)) d"
  using assms(2)
proof (induction rs arbitrary: d)
  case Nil
  then show ?case by simp
next
  case (Cons r rs)
  from Cons.prems obtain sel d1 where
    m: "map_of d (SKey (r @ TYPE_SUFFIX)) = Some (VStr sel)" and
    1: "prune_keys r (r @ ''_'' @ sel @ ARGS_SUFFIX) ks d = Inr d1" and
    2: "prune_replaceables rs ks d1 = Inr d'"
    by (auto split: option.splits val.splits sum.splits)
  let ?P = "\<lambda>k. \<not> (\<exists>key \<in> set ks. k = SKey key \<and> startswith key (r @ ''_'')
                       \<and> key \<noteq> r @ ''_'' @ sel @ ARGS_SUFFIX)"
  have d1: "d1 = filter (\<lambda>item. ?P (fst item)) d"
    using prune_keys_filter[OF 1] by simp
  have keep: "?P (SKey (r' @ TYPE_SUFFIX))" for r'
    using assms(1) type_key_not_args by auto
  have mo: "map_of d1 (SKey (r' @ TYPE_SUFFIX)) = map_of d (SKey (r' @ TYPE_SUFFIX))" for r'
    unfolding d1 using keep[of r'] by (subst map_of_filter_fst) simp
  have sel_eq: "selects d1 r' key = selects d r' key" for r' key
    by (simp add: selects_def mo)
  have selr: "selects d r key \<longleftrightarrow> startswith key (r @ ''_'') \<and> key \<noteq> r @ ''_'' @ sel @ ARGS_SUFFIX" for key
    by (simp add: selects_def m)
  from Cons.IH[OF 2]
  have "d' = filter (\<lambda>item. \<not> (\<exists>r \<in> set rs. \<exists>key \<in> set ks. fst item = SKey key \<and> selects d r key)) d1"
    by (simp add: sel_eq)
  then show ?case
    unfolding d1 by (auto simp: selr intro!: filter_cong)
qed

lemma member_type_key:
  "endswith tk TYPE_SUFFIX \<Longrightarrow> take (length tk - length TYPE_SUFFIX) tk @ TYPE_SUFFIX = tk"
  unfolding endswith_def by (metis append_take_drop_id)

lemma in_str_keys: "s \<in> set (str_keys d) \<longleftrightarrow> SKey s \<in> fst ` set d"
  by (induction d) (auto simp: str_keys_def map_filter_simps split: ckey.splits)

lemma prune_level_filter:
  assumes "prune_level d = Inr d'"
  shows "d' = filter (\<lambda>item. \<not> unused d (fst item)) d"
proof -
  let ?rs = "map (\<lambda>key. take (length key - length TYPE_SUFFIX) key)
               (filter (\<lambda>key. endswith key TYPE_SUFFIX) (str_keys d))"
  let ?ks = "filter (\<lambda>key. endswith key ARGS_SUFFIX) (str_keys d)"
  have ks: "\<forall>key \<in> set ?ks. endswith key ARGS_SUFFIX" by simp
  from assms have "prune_replaceables ?rs ?ks d = Inr d'" by (simp add: prune_level_def)
  from prune_replaceables_filter[OF ks this]
  have d': "d' = filter (\<lambda>item. \<not> (\<exists>r \<in> set ?rs. \<exists>key \<in> set ?ks. fst item = SKey key \<and> selects d r key)) d" .
  have "(\<exists>r \<in> set ?rs. \<exists>key \<in> set ?ks. fst item = SKey key \<and> selects d r key) \<longleftrightarrow> unused d (fst item)"
    if "item \<in> set d" for item
  proof (cases "fst item")
    case (OKey i)
    then show ?thesis by (auto simp: unused_def)
  next
    case (SKey key)
    from that SKey have inkeys: "key \<in> set (str_keys d)"
      by (force simp: in_str_keys)
    have "(\<exists>r \<in> set ?rs. selects d r key) \<longleftrightarrow>
          (\<exists>tk \<in> set (str_keys d). endswith tk TYPE_SUFFIX \<and>
             selects d (take (length tk - length TYPE_SUFFIX) tk) key)"
      by auto
    also have "\<dots> \<longleftrightarrow> (\<exists>tk \<in> set (str_keys d). endswith tk TYPE_SUFFIX \<and>
             startswith key (take (length tk - length TYPE_SUFFIX) tk @ ''_'') \<and>
             (case map_of d (SKey tk) of
                Some (VStr v) \<Rightarrow>
                  key \<noteq> take (length tk - length TYPE_SUFFIX) tk @ ''_'' @ v @ ARGS_SUFFIX
              | _ \<Rightarrow> False))"
      by (auto simp: selects_def member_type_key)
    finally show ?thesis using SKey inkeys by (auto simp: unused_def)
  qed
  then show ?thesis unfolding d' by (auto intro!: filter_cong)
qed

lemma pruned_other: "(\<And>sub. v \<noteq> VDict sub) \<Longrightarrow> pruned v = v"
  by (cases v) auto


lemma remove_unused_components_pruned:
  "(\<forall>d'. remove_unused_components d = Inr d' \<longrightarrow> pruned (VDict d) = VDict d')"
  "(\<forall>d'. prune_children d1 = Inr d' \<longrightarrow> map (\<lambda>item. (fst item, pruned (snd item))) d1 = d')"
proof (induction d and d1 rule: remove_unused_components_prune_children.induct)
  case (1 d)
  show ?case
  proof (intro allI impI)
    fix d' assume r: "remove_unused_components d = Inr d'"
    then obtain d1 where l: "prune_level d = Inr d1" and c: "prune_children d1 = Inr d'"
      by (auto split: sum.splits)
    from 1[OF l] c have "map (\<lambda>item. (fst item, pruned (snd item))) d1 = d'" by blast
    with prune_level_filter[OF l] show "pruned (VDict d) = VDict d'" by simp
  qed
next
  case 2
  show ?case by simp
next
  case (3 key v rest)
  show ?case
  proof (intro allI impI)
    fix d' assume r: "prune_children ((key, v) # rest) = Inr d'"
    show "map (\<lambda>item. (fst item, pruned (snd item))) ((key, v) # rest) = d'"
    proof (cases "\<exists>sub. v = VDict sub")
      case True
      then obtain sub where v: "v = VDict sub" by blast
      from r v obtain sub' rest' where s: "remove_unused_components sub = Inr sub'"
        and t: "prune_children rest = Inr rest'" and d': "d' = (key, VDict sub') # rest'"
        by (simp split: sum.splits)
      have P: "\<forall>d'. remove_unused_components sub = Inr d' \<longrightarrow> pruned (VDict sub) = VDict d'"
        using "3.IH" v by blast
      have Q: "\<forall>d'. prune_children rest = Inr d' \<longrightarrow> map (\<lambda>item. (fst item, pruned (snd item))) rest = d'"
        using "3.IH" v s by blast
      from P s have "pruned (VDict sub) = VDict sub'" by blast
      moreover from Q t have "map (\<lambda>item. (fst item, pruned (snd item))) rest = rest'"
        by blast
      ultimately show ?thesis using v d' by simp
    next
      case False
      then have pv: "pruned v = v" by (intro pruned_other) auto
      have Q: "\<forall>d'. prune_children rest = Inr d' \<longrightarrow> map (\<lambda>item. (fst item, pruned (snd item))) rest = d'"
        using "3.IH" False by (cases v) simp_all
      have "prune_children ((key, v) # rest) =
              (case prune_children rest of Inl e \<Rightarrow> Inl e | Inr rest' \<Rightarrow> Inr ((key, v) # rest'))"
        using False by (cases v) auto
      with r obtain rest' where t: "prune_children rest = Inr rest'" and d': "d' = (key, v) # rest'"
        by (auto split: sum.splits)
      from Q t have "map (\<lambda>item. (fst item, pruned (snd item))) rest = rest'" by blast
      with pv d' show ?thesis by simp
    qed
  qed
qed

lemmas prune_eval = prune_level_def str_keys_def map_filter_simps endswith_def startswith_def
  TYPE_SUFFIX_def ARGS_SUFFIX_def AList.delete_eq scenario_tree_def

lemma deleted_iff_unused:
  assumes "remove_unused_components d = Inr d'"
  shows "fst ` set d' = {k \<in> fst ` set d. \<not> unused d k}"
proof -
  from remove_unused_components_pruned(1) assms
  have "pruned (VDict d) = VDict d'" by blast
  then have "d' = map (\<lambda>item. (fst item, pruned (snd item))) (filter (\<lambda>item. \<not> unused d (fst item)) d)"
    by simp
  then show ?thesis by force
qed

lemma unused_intro:
  assumes m: "map_of d (SKey (member @ TYPE_SUFFIX)) = Some (VStr v)"
    and k: "SKey key \<in> fst ` set d"
    and s: "startswith key (member @ ''_'')" and e: "endswith key ARGS_SUFFIX"
    and n: "key \<noteq> member @ ''_'' @ v @ ARGS_SUFFIX"
  shows "unused d (SKey key)"
proof -
  let ?tk = "member @ TYPE_SUFFIX"
  from m have "SKey ?tk \<in> fst ` set d" by (metis domI dom_map_of_conv_image_fst)
  then have tk: "?tk \<in> set (str_keys d)" by (simp add: in_str_keys)
  have et: "endswith ?tk TYPE_SUFFIX" by (simp add: endswith_def)
  have mem: "take (length ?tk - length TYPE_SUFFIX) ?tk = member" by simp
  show ?thesis
    unfolding unused_def using tk et mem m s e n
    by (auto intro!: bexI[of _ ?tk])
qed

text \<open>
  Claim C8.  When \<^verbatim>\<open>remove_unused_components\<close> returns, the tree is the pruned tree of the
  specification at every nesting level: for every key \<^verbatim>\<open><member>_class_type\<close> with value
  \<open>v\<close>, every key of the same level that starts with \<^verbatim>\<open><member>_\<close>, ends with \<^verbatim>\<open>_args\<close> and is
  not \<^verbatim>\<open><member>_<v>_args\<close> is gone; a key that is gone is such a key; and every remaining
  nested tree has been pruned in the same way.  In Scenario A only \<^verbatim>\<open>a_A1_args\<close> goes.
\<close>

theorem remove_unused_components_postcondition:
  "remove_unused_components d = Inr d' \<Longrightarrow>
     VDict d' = pruned (VDict d)
     \<and> (\<forall>member v key.
           map_of d (SKey (member @ TYPE_SUFFIX)) = Some (VStr v) \<and> SKey key \<in> fst ` set d
           \<and> startswith key (member @ ''_'') \<and> endswith key ARGS_SUFFIX
           \<and> key \<noteq> member @ ''_'' @ v @ ARGS_SUFFIX
           \<longrightarrow> SKey key \<notin> fst ` set d')
     \<and> (\<forall>k \<in> fst ` set d. k \<notin> fst ` set d' \<longrightarrow> unused d k)"
proof -
  assume r: "remove_unused_components d = Inr d'"
  from remove_unused_components_pruned(1) r have p: "VDict d' = pruned (VDict d)" by simp
  from deleted_iff_unused[OF r] unused_intro p show ?thesis by blast
qed

theorem remove_unused_components_postcondition_witness:
  "remove_unused_components scenario_tree =
     Inr [(SKey ''a_class_type'', VStr ''A2''), (SKey ''a_A2_args'', VDict [(SKey ''n'', VStr ''2'')])]
   \<and> pruned (VDict scenario_tree) =
     VDict [(SKey ''a_class_type'', VStr ''A2''), (SKey ''a_A2_args'', VDict [(SKey ''n'', VStr ''2'')])]
   \<and> SKey ''a_A1_args'' \<notin> fst ` set [(SKey ''a_class_type'', VStr ''A2''), (SKey ''a_A2_args'', VDict [(SKey ''n'', VStr ''2'')])]"
proof -
  have r: "remove_unused_components scenario_tree =
     Inr [(SKey ''a_class_type'', VStr ''A2''), (SKey ''a_A2_args'', VDict [(SKey ''n'', VStr ''2'')])]"
    by (simp add: prune_eval)
  from remove_unused_components_postcondition[OF r]
  have "VDict [(SKey ''a_class_type'', VStr ''A2''), (SKey ''a_A2_args'', VDict [(SKey ''n'', VStr ''2'')])]
        = pruned (VDict scenario_tree)"
    by (rule conjunct1)
  then have p: "pruned (VDict scenario_tree) =
     VDict [(SKey ''a_class_type'', VStr ''A2''), (SKey ''a_A2_args'', VDict [(SKey ''n'', VStr ''2'')])]"
    by (rule sym)
  have n: "SKey ''a_A1_args'' \<notin> fst ` set [(SKey ''a_class_type'', VStr ''A2''), (SKey ''a_A2_args'', VDict [(SKey ''n'', VStr ''2'')])]"
    by simp
  from r p n show ?thesis by (intro conjI)
qed

section \<open>What expansion and extraction leave unchanged\<close>

lemma frame_refl: "frame P w w"
  by (simp add: frame_def)

lemma frame_trans:
  "frame P w w1 \<Longrightarrow> frame Q w1 w2 \<Longrightarrow> (\<And>c. P c \<Longrightarrow> R c) \<Longrightarrow> (\<And>c. Q c \<Longrightarrow> R c)
     \<Longrightarrow> frame R w w2"
  unfolding frame_def by (intro conjI allI impI) (metis subset_trans)+

lemma frame_mono: "frame P w w' \<Longrightarrow> (\<And>c. P c \<Longrightarrow> Q c) \<Longrightarrow> frame Q w w'"
  unfolding frame_def by blast

lemma frame_issubclass: "frame P w w' \<Longrightarrow> issubclass w' a b = issubclass w a b"
  by (simp add: frame_def issubclass_def)

lemma frame_marker: "frame P w w' \<Longrightarrow> marker w' c = marker w c"
  by (simp add: marker_def frame_issubclass)

lemma frame_sealed:
  "frame P w w' \<Longrightarrow> \<not> P c \<Longrightarrow> is_actually_dataclass w' c = is_actually_dataclass w c"
  by (simp add: frame_def is_actually_dataclass_def)

lemma frame_upd_class:
  "(\<And>k. cname (f k) = cname k \<and> bases (f k) = bases k \<and> mro (f k) = mro k)
     \<Longrightarrow> frame (\<lambda>c. c = C) w (upd_class w C f)"
  by (simp add: frame_def upd_class_def)

lemma frame_class_setattr: "frame (\<lambda>c. c = C) w (class_setattr w C name v)"
  unfolding class_setattr_def by (rule frame_upd_class) simp

lemma frame_set_annotation: "frame (\<lambda>c. c = C) w (set_annotation w C name v)"
  unfolding set_annotation_def by (rule frame_upd_class) simp

lemma frame_warn: "frame P w (warn x w)"
  by (auto simp: frame_def warn_def)

lemma frame_same: "frame (\<lambda>c. c = C) w w1 \<Longrightarrow> frame (\<lambda>c. c = C) w1 w2 \<Longrightarrow> frame (\<lambda>c. c = C) w w2"
  by (erule (1) frame_trans)

lemma frame_set_both:
  "frame (\<lambda>c. c = C) w (class_setattr (set_annotation w C n v) C n' v')"
  by (rule frame_same[OF frame_set_annotation frame_class_setattr])

lemma frame_replace_field_attrs:
  "replace_field_attrs C names w = (r, w') \<Longrightarrow> frame (\<lambda>c. c = C) w w'"
proof (induction names arbitrary: w)
  case Nil
  then show ?case by (simp add: frame_refl)
next
  case (Cons name names)
  show ?case
  proof (cases "\<exists>D dnp. class_getattr w C name = Some (VField D dnp)")
    case True
    then obtain D dnp where g: "class_getattr w C name = Some (VField D dnp)" by blast
    show ?thesis
    proof (cases "name \<in> fst ` set (attrs (classes w C))")
      case True
      let ?w1 = "upd_class w C (\<lambda>k. k\<lparr>attrs := AList.delete name (attrs k)\<rparr>)"
      from Cons.prems g True have "replace_field_attrs C names ?w1 = (r, w')" by simp
      from Cons.IH[OF this] have "frame (\<lambda>c. c = C) ?w1 w'" .
      moreover have "frame (\<lambda>c. c = C) w ?w1" by (rule frame_upd_class) simp
      ultimately show ?thesis by (rule frame_same[rotated])
    next
      case False
      with Cons.prems g have "w' = w" by simp
      then show ?thesis by (simp add: frame_refl)
    qed
  next
    case False
    with Cons.prems have "replace_field_attrs C names w = (r, w')"
      by (auto split: option.splits val.splits)
    from Cons.IH[OF this] show ?thesis .
  qed
qed

lemma frame_dataclass: "dataclass C w = (r, w') \<Longrightarrow> frame (\<lambda>c. c = C) w w'"
proof -
  assume d: "dataclass C w = (r, w')"
  obtain r1 w1 where rf: "replace_field_attrs C (map fst (own_annotations w C)) w = (r1, w1)"
    by (cases "replace_field_attrs C (map fst (own_annotations w C)) w")
  have f1: "frame (\<lambda>c. c = C) w w1" by (rule frame_replace_field_attrs[OF rf])
  let ?w2 = "upd_class w1 C (\<lambda>k. k\<lparr>dataclass_fields :=
       Some (dict_update (inherited_fields w C) (map (get_field w C) (own_annotations w C)))\<rparr>)"
  have f2: "frame (\<lambda>c. c = C) w1 ?w2" by (rule frame_upd_class) simp
  have f3: "frame (\<lambda>c. c = C) ?w2 (class_setattr ?w2 C ''__init__'' (VInit C))"
    by (rule frame_class_setattr)
  from d rf
  have "w' = w \<or> w' = w1 \<or> w' = ?w2 \<or> w' = class_setattr ?w2 C ''__init__'' (VInit C)"
    by (auto simp: dataclass_def Let_def split: sum.splits if_splits)
  then show ?thesis
  proof (elim disjE)
    assume "w' = w" then show ?thesis by (simp add: frame_refl)
  next
    assume "w' = w1" with f1 show ?thesis by simp
  next
    assume "w' = ?w2" with frame_same[OF f1 f2] show ?thesis by simp
  next
    assume "w' = class_setattr ?w2 C ''__init__'' (VInit C)"
    with frame_same[OF frame_same[OF f1 f2] f3] show ?thesis by simp
  qed
qed

lemma frame_seal: "seal C acc w = (r, w') \<Longrightarrow> frame (\<lambda>c. c = C) w w'"
proof -
  assume s: "seal C acc w = (r, w')"
  obtain cf ki pm where acc: "acc = (cf, ki, pm)" by (cases acc)
  let ?w1 = "upd_class (w\<lparr>warnings := warnings w @ clashes cf\<rparr>) C
             (\<lambda>k. k\<lparr>cls_creation_functions := Some cf, cls_processed_members := Some pm,
                     cls_known_implementations := Some ki\<rparr>)"
  have "frame (\<lambda>c. c = C) w ?w1" by (simp add: frame_def upd_class_def)
  moreover from s acc have "dataclass C ?w1 = (r, w')" by (simp add: seal_def)
  ultimately show ?thesis by (rule frame_same[OF _ frame_dataclass])
qed

lemma frame_add_implementations:
  "add_implementations name C dnp derived ki w = (r, w') \<Longrightarrow> frame (\<lambda>c. c = C) w w'"
proof (induction derived arbitrary: ki w)
  case Nil
  then show ?case by (simp add: frame_refl)
next
  case (Cons d ds)
  let ?an = "name @ ''_'' @ cname (classes w d) @ ARGS_SUFFIX"
  let ?w1 = "class_setattr (set_annotation w C ?an (VClass DictConfig_c)) C ?an
               (VField (VClass d) (dnp @ [C]))"
  have f1: "frame (\<lambda>c. c = C) w ?w1" by (rule frame_set_both)
  from Cons.prems consider
      (skip) "add_implementations name C dnp ds ki w = (r, w')"
    | (err) "w' = w"
    | (add) "add_implementations name C dnp ds (AList.update (cname (classes w d)) d ki) ?w1 = (r, w')"
    by (auto split: if_splits)
  then show ?case
  proof cases
    case skip
    then show ?thesis by (rule Cons.IH)
  next
    case err
    then show ?thesis by (simp add: frame_refl)
  next
    case add
    from f1 Cons.IH[OF add] show ?thesis by (rule frame_same)
  qed
qed

lemma frame_add_creation_function:
  "add_creation_function name ty p C cf w = (cf', w') \<Longrightarrow> frame (\<lambda>c. c = C) w w'"
  by (auto simp: add_creation_function_def frame_refl frame_class_setattr split: if_splits)

lemma frame_process_member:
  assumes "process_member name ty p C cf dnp ki w = (r, w')"
  shows "frame (\<lambda>c. c = C) w w'"
proof (cases "annotations (classes w C)")
  case None
  with assms have "w' = w" by (simp add: process_member_def)
  then show ?thesis by (simp add: frame_refl)
next
  case (Some a)
  show ?thesis
  proof (cases "name \<in> fst ` set a")
    case False
    with assms Some have "w' = w" by (simp add: process_member_def)
    then show ?thesis by (simp add: frame_refl)
  next
    case True
    let ?w0 = "upd_class w C (\<lambda>k. k\<lparr>annotations := Some (AList.delete name a)\<rparr>)"
    have f0: "frame (\<lambda>c. c = C) w ?w0" by (rule frame_upd_class) simp
    show ?thesis
    proof (cases p)
      case True
      let ?w1 = "(if name @ TYPE_SUFFIX \<notin> fst ` set (own_annotations ?w0 C)
                      then class_setattr
                             (set_annotation ?w0 C (name @ TYPE_SUFFIX) (VClass str_c))
                             C (name @ TYPE_SUFFIX) (VStr ''UNDEFAULTED'')
                      else ?w0)"
      have f1: "frame (\<lambda>c. c = C) ?w0 ?w1"
        by (simp only: frame_set_both frame_refl if_split simp_thms)
      have f01: "frame (\<lambda>c. c = C) w ?w1" using f0 f1 by (rule frame_same)
      show ?thesis
      proof (cases "registry_get_all ?w1 ty")
        case (Inl e)
        with assms Some \<open>name \<in> fst ` set a\<close> True have "w' = ?w1"
          by (simp add: process_member_def Let_def)
        with f01 show ?thesis by simp
      next
        case (Inr derived)
        obtain r2 w2 where ai: "add_implementations name C dnp derived ki ?w1 = (r2, w2)"
          by (cases "add_implementations name C dnp derived ki ?w1")
        have f2: "frame (\<lambda>c. c = C) ?w1 w2" by (rule frame_add_implementations[OF ai])
        show ?thesis
        proof (cases r2)
          case (Inl e)
          with assms Some \<open>name \<in> fst ` set a\<close> True Inr ai have "w' = w2"
            by (simp add: process_member_def Let_def)
          with frame_same[OF f01 f2] show ?thesis by simp
        next
          case (Inr ki')
          obtain cf' w3 where ac: "add_creation_function name ty p C cf w2 = (cf', w3)"
            by (cases "add_creation_function name ty p C cf w2")
          with assms Some \<open>name \<in> fst ` set a\<close> True \<open>registry_get_all ?w1 ty = Inr derived\<close> ai Inr
          have "w' = w3" by (simp add: process_member_def Let_def)
          with frame_same[OF frame_same[OF f01 f2] frame_add_creation_function[OF ac]]
          show ?thesis by simp
        qed
      qed
    next
      case False
      let ?w2 = "class_setattr
                         (set_annotation ?w0 C (name @ ARGS_SUFFIX) (VClass DictConfig_c))
                         C (name @ ARGS_SUFFIX) (VField (VClass ty) (dnp @ [C]))"
      have f2: "frame (\<lambda>c. c = C) ?w0 ?w2" by (rule frame_set_both)
      obtain cf' w3 where ac: "add_creation_function name ty p C cf ?w2 = (cf', w3)"
        by (cases "add_creation_function name ty p C cf ?w2")
      from assms Some \<open>name \<in> fst ` set a\<close> False ac have "w' = ?w0 \<or> w' = w3"
        by (auto simp: process_member_def Let_def split: if_splits)
      then show ?thesis
      proof
        assume "w' = ?w0" with f0 show ?thesis by simp
      next
        assume "w' = w3"
        with frame_same[OF frame_same[OF f0 f2] frame_add_creation_function[OF ac]]
        show ?thesis by simp
      qed
    qed
  qed
qed

lemma frame_process_members:
  "process_members C dnp tp acc w = (r, w') \<Longrightarrow> frame (\<lambda>c. c = C) w w'"
proof (induction tp arbitrary: acc w)
  case Nil
  then show ?case by (simp add: frame_refl)
next
  case (Cons m tp)
  obtain name ty p where m: "m = (name, ty, p)" by (cases m)
  obtain cf ki pm where acc: "acc = (cf, ki, pm)" by (cases acc)
  obtain r1 w1 where pm1: "process_member name ty p C cf dnp ki w = (r1, w1)"
    by (cases "process_member name ty p C cf dnp ki w")
  have f1: "frame (\<lambda>c. c = C) w w1" by (rule frame_process_member[OF pm1])
  show ?case
  proof (cases r1)
    case (Inl e)
    with Cons.prems m acc pm1 have "w' = w1" by simp
    with f1 show ?thesis by simp
  next
    case (Inr x)
    obtain cf' ki' where x: "x = (cf', ki')" by (cases x)
    with Cons.prems m acc pm1 Inr
    have "process_members C dnp tp (cf', ki', insert name pm) w1 = (r, w')" by simp
    from f1 Cons.IH[OF this] show ?thesis by (rule frame_same)
  qed
qed

lemma frame_um_trans:
  assumes 1: "frame (unsealed_marker w) w w1" and 2: "frame (unsealed_marker w1) w1 w2"
  shows "frame (unsealed_marker w) w w2"
proof (rule frame_trans[OF 1 2])
  fix c assume um: "unsealed_marker w1 c"
  then have m: "marker w c" using frame_marker[OF 1] by (simp add: unsealed_marker_def)
  have "\<not> is_actually_dataclass w c"
  proof
    assume s: "is_actually_dataclass w c"
    then have "\<not> unsealed_marker w c" by (simp add: unsealed_marker_def)
    from frame_sealed[OF 1 this] s um show False by (simp add: unsealed_marker_def)
  qed
  with m show "unsealed_marker w c" by (simp add: unsealed_marker_def)
qed simp

lemma frame_expand:
  "\<forall>r w'. expand_args_fields n C dnp w = (r, w') \<longrightarrow>
      frame (\<lambda>c. \<not> is_actually_dataclass w c \<and> (c = C \<or> marker w c)) w w'"
  "\<forall>r w'. expand_bases n bs dnp acc w = (r, w') \<longrightarrow> frame (unsealed_marker w) w w'"
proof (induction n C dnp w and n bs dnp acc w rule: expand_args_fields_expand_bases.induct)
  case (1 some_class dnp w)
  show ?case by (auto simp: frame_refl split: if_splits)
next
  case (2 n C dnp w)
  let ?R = "\<lambda>c. \<not> is_actually_dataclass w c \<and> (c = C \<or> marker w c)"
  show ?case
  proof (intro allI impI)
    fix r w' assume e: "expand_args_fields (Suc n) C dnp w = (r, w')"
    show "frame ?R w w'"
    proof (cases "is_actually_dataclass w C")
      case True
      with e have "w' = w" by simp
      then show ?thesis by (simp add: frame_refl)
    next
      case False
      let ?bs = "rev (tl (take (length (mro (classes w C)) - 2) (mro (classes w C))))"
      obtain rb w1 where eb: "expand_bases n ?bs dnp ([], [], {}) w = (rb, w1)"
        by (cases "expand_bases n ?bs dnp ([], [], {}) w")
      from 2[OF False] eb have f1: "frame (unsealed_marker w) w w1" by blast
      have f1': "frame ?R w w1" by (rule frame_mono[OF f1]) (simp add: unsealed_marker_def)
      show ?thesis
      proof (cases rb)
        case (Inl err)
        with e False eb have "w' = w1" by simp
        with f1' show ?thesis by simp
      next
        case (Inr acc)
        obtain r2 w2 where pm: "process_members C dnp (to_process w1 C) acc w1 = (r2, w2)"
          by (cases "process_members C dnp (to_process w1 C) acc w1")
        have f2: "frame (\<lambda>c. c = C) w1 w2" by (rule frame_process_members[OF pm])
        have f12: "frame ?R w w2" by (rule frame_trans[OF f1 f2]) (simp_all add: unsealed_marker_def False)
        show ?thesis
        proof (cases r2)
          case (Inl err)
          with e False eb Inr pm have "w' = w2" by simp
          with f12 show ?thesis by simp
        next
          case (Inr acc')
          with e False eb \<open>rb = Inr acc\<close> pm have "seal C acc' w2 = (r, w')" by simp
          from frame_seal[OF this] have f3: "frame (\<lambda>c. c = C) w2 w'" .
          show ?thesis by (rule frame_trans[OF f12 f3]) (simp_all add: False)
        qed
      qed
    qed
  qed
next
  case (3 n dnp acc w)
  show ?case by (simp add: frame_refl)
next
  case (4 n base rest dnp acc w)
  show ?case
  proof (intro allI impI)
    fix r w' assume e: "expand_bases n (base # rest) dnp acc w = (r, w')"
    show "frame (unsealed_marker w) w w'"
    proof (cases "base = ReplaceableBase \<or> base = Configurable \<or>
                  \<not> (issubclass w base Configurable \<or> issubclass w base ReplaceableBase)")
      case True
      with e have e': "expand_bases n rest dnp acc w = (r, w')" by (auto split: if_splits)
      from True have "\<forall>r w'. expand_bases n rest dnp acc w = (r, w') \<longrightarrow> frame (unsealed_marker w) w w'"
        using "4.IH"(1,2,3) by blast
      with e' show ?thesis by blast
    next
      case False
      then have nb: "base \<noteq> ReplaceableBase" "base \<noteq> Configurable"
        and mk: "\<not> \<not> (issubclass w base Configurable \<or> issubclass w base ReplaceableBase)"
        by auto
      obtain x y where eb: "expand_args_fields n base dnp w = (x, y)"
        by (cases "expand_args_fields n base dnp w")
      from "4.IH"(4)[OF nb mk] eb
      have "frame (\<lambda>c. \<not> is_actually_dataclass w c \<and> (c = base \<or> marker w c)) w y" by blast
      then have f1: "frame (unsealed_marker w) w y"
        by (rule frame_mono) (use mk in \<open>auto simp: unsealed_marker_def marker_def\<close>)
      show ?thesis
      proof (cases x)
        case (Inl err)
        with e False eb have "w' = y" by auto
        with f1 show ?thesis by simp
      next
        case (Inr b)
        with e False eb have e': "expand_bases n rest dnp (merge_base (classes y base) acc) y = (r, w')"
          by auto
        from "4.IH"(5)[OF nb mk eb[symmetric] Inr] e'
        have "frame (unsealed_marker y) y w'" by blast
        with f1 show ?thesis by (rule frame_um_trans)
      qed
    qed
  qed
qed

lemma frame_ensure_processed:
  assumes "ensure_processed n C dnp w = (x, y)"
  shows "frame (unsealed_marker w) w y"
proof (cases "is_configurable_class w C \<and> (\<exists>c. class_of C = Some c \<and> c \<notin> set dnp)")
  case True
  then obtain c where c: "class_of C = Some c" "c \<notin> set dnp" and cc: "is_configurable_class w C"
    by blast
  from c have C: "C = VClass c" by (cases C) (auto simp: class_of_def)
  from assms c cc have "expand_args_fields n c dnp w = (x, y)" by (simp add: ensure_processed_def)
  with frame_expand(1) have "frame (\<lambda>c'. \<not> is_actually_dataclass w c' \<and> (c' = c \<or> marker w c')) w y"
    by blast
  then show ?thesis
    by (rule frame_mono) (use cc C in \<open>auto simp: unsealed_marker_def marker_def is_configurable_class_def\<close>)
next
  case False
  with assms have "y = w" by (auto simp: ensure_processed_def split: option.splits if_splits)
  then show ?thesis by (simp add: frame_refl)
qed

lemma frame_get_default_args:
  "\<forall>r w'. get_default_args n C dnp w = (r, w') \<longrightarrow> frame (unsealed_marker w) w w'"
  "\<forall>r w'. structured_fields n flds w = (r, w') \<longrightarrow> frame (unsealed_marker w) w w'"
  "\<forall>r w'. field_default n d w = (r, w') \<longrightarrow> frame (unsealed_marker w) w w'"
proof (induction n C dnp w and n flds w and n d w
       rule: get_default_args_structured_fields_field_default.induct)
  case (1 n C dnp w)
  show ?case
  proof (intro allI impI)
    fix r w' assume g: "get_default_args n C dnp w = (r, w')"
    show "frame (unsealed_marker w) w w'"
    proof (cases "C = VNone")
      case True
      with g have "w' = w" by simp
      then show ?thesis by (simp add: frame_refl)
    next
      case False
      obtain x y where ep: "ensure_processed n C dnp w = (x, y)"
        by (cases "ensure_processed n C dnp w")
      have f1: "frame (unsealed_marker w) w y" by (rule frame_ensure_processed[OF ep])
      show ?thesis
      proof (cases x)
        case (Inl err)
        with g False ep have "w' = y" by simp
        with f1 show ?thesis by simp
      next
        case (Inr b)
        show ?thesis
        proof (cases "fields_of y C")
          case None
          with g False ep Inr have "w' = y" by simp
          with f1 show ?thesis by simp
        next
          case (Some flds)
          obtain r2 w2 where sf: "structured_fields n flds y = (r2, w2)"
            by (cases "structured_fields n flds y")
          from 1[OF False ep[symmetric] Inr Some] sf have f2: "frame (unsealed_marker y) y w2"
            by blast
          from g False ep Inr Some sf have "w' = w2" by (auto split: sum.splits)
          with frame_um_trans[OF f1 f2] show ?thesis by simp
        qed
      qed
    qed
  qed
next
  case (2 n w)
  show ?case by (simp add: frame_refl)
next
  case (3 n name ty d fs w)
  show ?case
  proof (intro allI impI)
    fix r w' assume s: "structured_fields n ((name, ty, d) # fs) w = (r, w')"
    obtain x y where fd: "field_default n d w = (x, y)" by (cases "field_default n d w")
    from "3.IH"(1) fd have f1: "frame (unsealed_marker w) w y" by blast
    show "frame (unsealed_marker w) w w'"
    proof (cases x)
      case (Inl err)
      with s fd have "w' = y" by simp
      with f1 show ?thesis by simp
    next
      case (Inr v)
      obtain r2 w2 where sf: "structured_fields n fs y = (r2, w2)"
        by (cases "structured_fields n fs y")
      from "3.IH"(2)[OF fd[symmetric] Inr] sf have f2: "frame (unsealed_marker y) y w2" by blast
      from s fd Inr sf have "w' = w2" by (auto split: sum.splits)
      with frame_um_trans[OF f1 f2] show ?thesis by simp
    qed
  qed
next
  case (4 n d w)
  show ?case
  proof (intro allI impI)
    fix r w' assume f: "field_default n d w = (r, w')"
    show "frame (unsealed_marker w) w w'"
    proof (cases "\<exists>D dn m. d = Some (VField D dn) \<and> n = Suc m")
      case True
      then obtain D dn m where d: "d = Some (VField D dn)" and n: "n = Suc m" by blast
      with f have "get_default_args m D dn w = (r, w')" by simp
      with 4[OF d refl n] show ?thesis by blast
    next
      case False
      with f have "w' = w"
        by (cases n) (auto split: option.splits val.splits)
      then show ?thesis by (simp add: frame_refl)
    qed
  qed
qed

lemmas tree_defs = ensure_processed_def fields_of_def exclude_of_def pop_excluded_def
  class_of_def signature_defaults_def signature_def defaulted_kwargs_def plain_default_def
  supported_value_def scenario_tree_def

text \<open>
  The claim as written fails: \<^verbatim>\<open>get_default_args(B)\<close> on the unprocessed class \<^verbatim>\<open>B\<close> of
  Scenario A returns the tree and replaces the annotations of \<^verbatim>\<open>B\<close>.
\<close>

theorem get_default_args_mutates_counterexample:
  "is_configurable_class scenario_A (VClass cls_B)
   \<and> annotations (classes scenario_A cls_B)
       = Some [(''a'', VClass cls_A), (''a_class_type'', VClass str_c)]
   \<and> fst (get_default_args (Suc (Suc (Suc 0))) (VClass cls_B) [] scenario_A)
       = Inr (VDict scenario_tree)
   \<and> annotations (classes (snd (get_default_args (Suc (Suc (Suc 0))) (VClass cls_B) [] scenario_A)) cls_B)
       = Some [(''a_class_type'', VClass str_c), (''a_A1_args'', VClass DictConfig_c),
               (''a_A2_args'', VClass DictConfig_c)]"
  by (simp add: eval_defs tree_defs)


lemmas sealed_defs = sealed_A_def sealed_A1_def sealed_A2_def sealed_B_def

lemma get_default_args_B:
  "get_default_args (Suc (Suc (Suc n))) (VClass cls_B) [] scenario_A
     = (Inr (VDict scenario_tree), processed)"
  by (simp add: eval_defs tree_defs processed_def sealed_defs)

lemma processed_classes:
  "classes processed = builtin_classes(cls_B := sealed_B, cls_A := sealed_A, cls_A1 := sealed_A1,
                                  cls_A2 := sealed_A2)"
  by (simp add: processed_def)

lemma processed_registry:
  "registry processed = (\<lambda>b. [])(cls_A := [(''A1'', cls_A1), (''A2'', cls_A2)])"
  by (simp add: processed_def scenario_A_registry)

section \<open>Scenario A: extraction, construction and re-registration\<close>

lemmas construct_defs = init_instance_def marker_new_def post_init_of_def inst_getattr_def
  inst_setattr_def inst_class_attr_def chosen_class_of_def type_name_str_def stale_def
  kwargs_of_def kwargs_items_def map_filter_simps scenario_kwargs_def

lemmas processed_defs = is_actually_dataclass_def to_process_def seal_def dataclass_def
  upd_class_def class_setattr_def set_annotation_def own_annotations_def warn_def
  issubclass_def is_base_class_def base_class_from_class_def registry_get_all_def
  registry_get_def dict_values_def dict_update_def mro_lookup_def class_getattr_def
  inherited_fields_def get_field_def is_field_def clashes_def merge_base_def
  process_member_def add_creation_function_def classify_def map_filter_simps
  TYPE_SUFFIX_def ARGS_SUFFIX_def plain_class_def builtin_classes_def
  class_A_def class_A1_def class_A2_def class_B_def sealed_defs
  is_configurable_class_def processed_classes processed_registry


text \<open>
  Claim C1.  In Scenario A, \<^verbatim>\<open>get_default_args(B)\<close> returns the tree
  \<^verbatim>\<open>{a_class_type: "A2", a_A1_args: {m: 3}, a_A2_args: {n: "2"}}\<close> at any call depth of three
  or more; \<^verbatim>\<open>B(**tree)\<close>, whose \<^verbatim>\<open>__post_init__\<close> runs the auto-creation, sets the member
  \<^verbatim>\<open>a\<close> to an instance of \<^verbatim>\<open>A2\<close>, the class registered under the name in
  \<^verbatim>\<open>a_class_type\<close>, built from \<^verbatim>\<open>a_A2_args\<close>: an \<^verbatim>\<open>A2\<close> with \<^verbatim>\<open>n == "2"\<close>.  The pruned tree
  gives the same instance, and with \<^verbatim>\<open>a_class_type = "A1"\<close> the member is an \<^verbatim>\<open>A1\<close> built
  from \<^verbatim>\<open>a_A1_args\<close>.
\<close>

theorem scenario_A_round_trip:
  "get_default_args (Suc (Suc (Suc n))) (VClass cls_B) [] scenario_A
     = (Inr (VDict scenario_tree), processed)
   \<and> kwargs_of (VDict scenario_tree) = Inr scenario_kwargs
   \<and> registry_get processed cls_A ''A2'' = Inr cls_A2
   \<and> construct (Suc (Suc m)) cls_B scenario_kwargs processed
       = (Inr (VInst cls_B (scenario_kwargs @ [(''a'', VInst cls_A2 [(''n'', VStr ''2'')])])),
          processed)
   \<and> remove_unused_components scenario_tree
       = Inr [(SKey ''a_class_type'', VStr ''A2''),
              (SKey ''a_A2_args'', VDict [(SKey ''n'', VStr ''2'')])]
   \<and> kwargs_of (VDict [(SKey ''a_class_type'', VStr ''A2''),
                        (SKey ''a_A2_args'', VDict [(SKey ''n'', VStr ''2'')])])
       = Inr pruned_kwargs
   \<and> construct (Suc (Suc m)) cls_B pruned_kwargs processed
       = (Inr (VInst cls_B (scenario_kwargs @ [(''a'', VInst cls_A2 [(''n'', VStr ''2'')])])),
          processed)
   \<and> construct (Suc (Suc m)) cls_B (AList.update ''a_class_type'' (VStr ''A1'') scenario_kwargs)
         processed
       = (Inr (VInst cls_B (AList.update ''a_class_type'' (VStr ''A1'') scenario_kwargs
                             @ [(''a'', VInst cls_A1 [(''m'', VInt 3)])])),
          processed)"
proof (intro conjI)
  show "get_default_args (Suc (Suc (Suc n))) (VClass cls_B) [] scenario_A
     = (Inr (VDict scenario_tree), processed)"
    by (rule get_default_args_B)
  show "kwargs_of (VDict scenario_tree) = Inr scenario_kwargs"
    by (simp add: kwargs_of_def kwargs_items_def map_filter_simps scenario_tree_def scenario_kwargs_def)
  show "registry_get processed cls_A ''A2'' = Inr cls_A2"
    by (simp add: processed_defs)
  show "construct (Suc (Suc m)) cls_B scenario_kwargs processed
       = (Inr (VInst cls_B (scenario_kwargs @ [(''a'', VInst cls_A2 [(''n'', VStr ''2'')])])),
          processed)"
    by (simp add: processed_defs construct_defs tree_defs)
  show "remove_unused_components scenario_tree
       = Inr [(SKey ''a_class_type'', VStr ''A2''),
              (SKey ''a_A2_args'', VDict [(SKey ''n'', VStr ''2'')])]"
    by (simp add: prune_eval)
  show "kwargs_of (VDict [(SKey ''a_class_type'', VStr ''A2''),
                        (SKey ''a_A2_args'', VDict [(SKey ''n'', VStr ''2'')])])
       = Inr pruned_kwargs"
    by (simp add: kwargs_of_def kwargs_items_def map_filter_simps pruned_kwargs_def)
  show "construct (Suc (Suc m)) cls_B pruned_kwargs processed
       = (Inr (VInst cls_B (scenario_kwargs @ [(''a'', VInst cls_A2 [(''n'', VStr ''2'')])])),
          processed)"
    by (simp add: processed_defs construct_defs tree_defs pruned_kwargs_def)
  show "construct (Suc (Suc m)) cls_B (AList.update ''a_class_type'' (VStr ''A1'') scenario_kwargs)
         processed
       = (Inr (VInst cls_B (AList.update ''a_class_type'' (VStr ''A1'') scenario_kwargs
                             @ [(''a'', VInst cls_A1 [(''m'', VInt 3)])])),
          processed)"
    by (simp add: processed_defs construct_defs tree_defs)
qed

lemma redefined_classes:
  "classes redefined = builtin_classes(cls_B := sealed_B, cls_A := sealed_A, cls_A1 := sealed_A1,
                                  cls_A2 := sealed_A2, Cls 4 := class_A2_new)"
  by (simp add: redefined_def redeclared_def processed_defs register'_def registry_register_def
        class_A2_new_def)

lemma redefined_registry:
  "registry redefined = (\<lambda>b. [])(cls_A := [(''A1'', cls_A1), (''A2'', Cls 4)])"
  by (simp add: redefined_def redeclared_def processed_defs register'_def registry_register_def
        class_A2_new_def)

lemma redefined_rest: "warnings redefined = []" "user_code redefined = (\<lambda>k self. Inr self)"
  by (simp_all add: redefined_def redeclared_def processed_def scenario_A_def declared_def
        register'_def registry_register_def processed_defs class_A2_new_def)

lemma frame_warnings: "frame P w w' \<Longrightarrow> set (warnings w) \<subseteq> set (warnings w')"
  by (simp add: frame_def)

lemma expand_warnings:
  "expand_args_fields n c dnp w = (r, w') \<Longrightarrow> set (warnings w) \<subseteq> set (warnings w')"
  using frame_expand(1) frame_warnings by blast

lemma get_default_args_warnings:
  "get_default_args n C dnp w = (r, w') \<Longrightarrow> set (warnings w) \<subseteq> set (warnings w')"
  using frame_get_default_args(1) frame_warnings by blast

lemma init_fields_warnings:
  "init_fields n flds kwargs self w = (r, w') \<Longrightarrow> set (warnings w) \<subseteq> set (warnings w')"
proof (induction flds arbitrary: self w)
  case Nil
  then show ?case by simp
next
  case (Cons f fs)
  obtain name ty d where f: "f = (name, ty, d)" by (cases f)
  show ?case
  proof (cases "map_of kwargs name")
    case (Some v)
    with Cons.prems f have "init_fields n fs kwargs (AList.update name v self) w = (r, w')" by simp
    then show ?thesis by (rule Cons.IH)
  next
    case None
    show ?thesis
    proof (cases "\<exists>C dnp m. d = Some (VField C dnp) \<and> n = Suc m")
      case True
      then obtain C dnp m where d: "d = Some (VField C dnp)" and n: "n = Suc m" by blast
      obtain x y where g: "get_default_args m C dnp w = (x, y)"
        by (cases "get_default_args m C dnp w")
      note gw = get_default_args_warnings[OF g]
      show ?thesis
      proof (cases x)
        case (Inl e)
        with Cons.prems f None d n g have "w' = y" by simp
        with gw show ?thesis by simp
      next
        case (Inr v)
        with Cons.prems f None d n g
        have "init_fields n fs kwargs (AList.update name v self) y = (r, w')" by simp
        from Cons.IH[OF this] gw show ?thesis by blast
      qed
    next
      case False
      with Cons.prems f None
      have "w' = w \<or> (\<exists>v. init_fields n fs kwargs (AList.update name v self) w = (r, w'))"
        by (cases n) (auto split: option.splits val.splits)
      then show ?thesis using Cons.IH by blast
    qed
  qed
qed

lemma init_instance_warnings:
  "init_instance n c kwargs w = (r, w') \<Longrightarrow> set (warnings w) \<subseteq> set (warnings w')"
  unfolding init_instance_def
  by (auto split: option.splits val.splits if_splits sum.splits prod.splits
           dest: init_fields_warnings)

lemma marker_new_warnings: "set (warnings w) \<subseteq> set (warnings (marker_new c w))"
  by (auto simp: marker_new_def warn_def)

lemma construct_warnings:
  "\<forall>r w'. construct n c kwargs w = (r, w') \<longrightarrow> set (warnings w) \<subseteq> set (warnings w')"
  "\<forall>r w'. call_method n f self w = (r, w') \<longrightarrow> set (warnings w) \<subseteq> set (warnings w')"
  "\<forall>r w'. run_auto_creation n self w = (r, w') \<longrightarrow> set (warnings w) \<subseteq> set (warnings w')"
  "\<forall>r w'. run_creations n cfs self w = (r, w') \<longrightarrow> set (warnings w) \<subseteq> set (warnings w')"
  "\<forall>r w'. inner n name ty self w = (r, w') \<longrightarrow> set (warnings w) \<subseteq> set (warnings w')"
  "\<forall>r w'. inner_pluggable n name ty self w = (r, w') \<longrightarrow> set (warnings w) \<subseteq> set (warnings w')"
proof (induction n c kwargs w and n f self w and n self w and n cfs self w
         and n name ty self w and n name ty self w
       rule: construct_call_method_run_auto_creation_run_creations_inner_inner_pluggable.induct)
  case (1 n c kwargs w)
  show ?case
  proof (intro allI impI)
    fix r w' assume c: "construct n c kwargs w = (r, w')"
    obtain x y where i: "init_instance n c kwargs (marker_new c w) = (x, y)"
      by (cases "init_instance n c kwargs (marker_new c w)")
    have wy: "set (warnings w) \<subseteq> set (warnings y)"
      using marker_new_warnings[of w c] init_instance_warnings[OF i] by blast
    show "set (warnings w) \<subseteq> set (warnings w')"
    proof (cases x)
      case (Inl e)
      with c i have "w' = y" by simp
      with wy show ?thesis by simp
    next
      case (Inr b)
      show ?thesis
      proof (cases "post_init_of y c")
        case None
        with c i Inr have "w' = y" by simp
        with wy show ?thesis by simp
      next
        case (Some g)
        with c i Inr have "call_method n g b y = (r, w')" by simp
        with 1[OF i[symmetric] Inr Some] wy show ?thesis by blast
      qed
    qed
  qed
next
  case (2 n f self w)
  show ?case
  proof (intro allI impI)
    fix r w' assume c: "call_method n f self w = (r, w')"
    show "set (warnings w) \<subseteq> set (warnings w')"
    proof (cases f)
      case (VCreate name ty p)
      show ?thesis
      proof (cases p)
        case True
        with c VCreate have "inner_pluggable n name ty self w = (r, w')" by simp
        with "2.IH"(1)[OF VCreate True] show ?thesis by blast
      next
        case False
        with c VCreate have "inner n name ty self w = (r, w')" by simp
        with "2.IH"(2)[OF VCreate False] show ?thesis by blast
      qed
    next
      case VRunAutoCreation
      show ?thesis
      proof (cases n)
        case 0
        with c VRunAutoCreation show ?thesis by simp
      next
        case (Suc m)
        with c VRunAutoCreation have "run_auto_creation m self w = (r, w')" by simp
        with "2.IH"(3)[OF VRunAutoCreation Suc] show ?thesis by blast
      qed
    qed (use c in \<open>auto split: sum.splits\<close>)
  qed
next
  case (3 n self w)
  show ?case
  proof (intro allI impI)
    fix r w' assume c: "run_auto_creation n self w = (r, w')"
    show "set (warnings w) \<subseteq> set (warnings w')"
    proof (cases "inst_class_attr w self cls_creation_functions")
      case None
      with c show ?thesis by simp
    next
      case (Some cfs)
      with c have "run_creations n cfs self w = (r, w')" by simp
      with 3[OF Some] show ?thesis by blast
    qed
  qed
next
  case (4 n self w)
  show ?case by simp
next
  case (5 n create_function rest self w)
  show ?case
  proof (intro allI impI)
    fix r w' assume c: "run_creations n (create_function # rest) self w = (r, w')"
    show "set (warnings w) \<subseteq> set (warnings w')"
    proof (cases "inst_getattr w self create_function")
      case None
      with c show ?thesis by simp
    next
      case (Some g)
      obtain x y where cm: "call_method n g self w = (x, y)"
        by (cases "call_method n g self w")
      from "5.IH"(1)[OF Some] cm have wy: "set (warnings w) \<subseteq> set (warnings y)" by blast
      show ?thesis
      proof (cases x)
        case (Inl e)
        with c Some cm have "w' = y" by simp
        with wy show ?thesis by simp
      next
        case (Inr self')
        with c Some cm have "run_creations n rest self' y = (r, w')" by simp
        with "5.IH"(2)[OF Some cm[symmetric] Inr] wy show ?thesis by blast
      qed
    qed
  qed
next
  case (6 n name ty self w)
  show ?case
  proof (intro allI impI)
    fix r w' assume c: "inner n name ty self w = (r, w')"
    obtain x y where e: "expand_args_fields n ty [] w = (x, y)"
      by (cases "expand_args_fields n ty [] w")
    note wy = expand_warnings[OF e]
    show "set (warnings w) \<subseteq> set (warnings w')"
    proof (cases "\<exists>b args kw m. x = Inr b \<and> inst_getattr y self (name @ ARGS_SUFFIX) = Some args
                    \<and> kwargs_of args = Inr kw \<and> n = Suc m")
      case True
      then obtain b args kw m where x: "x = Inr b"
        and a: "inst_getattr y self (name @ ARGS_SUFFIX) = Some args"
        and k: "kwargs_of args = Inr kw" and n: "n = Suc m" by blast
      obtain x2 y2 where cc: "construct m ty kw y = (x2, y2)" by (cases "construct m ty kw y")
      from 6[OF e[symmetric] x a k n] cc have "set (warnings y) \<subseteq> set (warnings y2)" by blast
      moreover from c e x a k n cc have "w' = y2" by (auto split: sum.splits)
      ultimately show ?thesis using wy by blast
    next
      case False
      with c e have "w' = y"
        by (cases n) (auto split: sum.splits option.splits)
      with wy show ?thesis by simp
    qed
  qed
next
  case (7 n name ty self w)
  show ?case
  proof (intro allI impI)
    fix r w' assume c: "inner_pluggable n name ty self w = (r, w')"
    show "set (warnings w) \<subseteq> set (warnings w')"
    proof (cases "\<exists>tn chosen known. inst_getattr w self (name @ TYPE_SUFFIX) = Some tn
                    \<and> chosen_class_of w ty tn = Inr chosen
                    \<and> inst_class_attr w self cls_known_implementations = Some known")
      case False
      with c have "w' = w" by (auto split: option.splits sum.splits)
      then show ?thesis by simp
    next
      case True
      then obtain tn chosen known where t: "inst_getattr w self (name @ TYPE_SUFFIX) = Some tn"
        and ch: "chosen_class_of w ty tn = Inr chosen"
        and kn: "inst_class_attr w self cls_known_implementations = Some known" by blast
      let ?w0 = "if stale known (type_name_str tn) chosen
                 then warn (NewImplementation (type_name_str tn)) w else w"
      have w0: "set (warnings w) \<subseteq> set (warnings ?w0)" by (auto simp: warn_def)
      obtain x y where e: "expand_args_fields n chosen [] ?w0 = (x, y)"
        by (cases "expand_args_fields n chosen [] ?w0")
      note wy = expand_warnings[OF e]
      show ?thesis
      proof (cases "\<exists>b args kw m. x = Inr b
                    \<and> inst_getattr y self (name @ ''_'' @ type_name_str tn @ ARGS_SUFFIX) = Some args
                    \<and> kwargs_of args = Inr kw \<and> n = Suc m")
        case True
        then obtain b args kw m where x: "x = Inr b"
          and a: "inst_getattr y self (name @ ''_'' @ type_name_str tn @ ARGS_SUFFIX) = Some args"
          and k: "kwargs_of args = Inr kw" and n: "n = Suc m" by blast
        obtain x2 y2 where cc: "construct m chosen kw y = (x2, y2)"
          by (cases "construct m chosen kw y")
        from 7[OF t ch kn e[symmetric] x a k n] cc
        have "set (warnings y) \<subseteq> set (warnings y2)" by blast
        moreover from c t ch kn e x a k n cc have "w' = y2" by (auto split: sum.splits)
        ultimately show ?thesis using wy w0 by blast
      next
        case False
        with c t ch kn e have "w' = y"
          by (cases n) (auto split: sum.splits option.splits)
        with wy w0 show ?thesis by blast
      qed
    qed
  qed
qed

lemma inner_pluggable_stale:
  assumes t: "inst_getattr v self (name @ TYPE_SUFFIX) = Some (VStr tn)"
    and g: "registry_get v ty tn = Inr chosen"
    and kn: "inst_class_attr v self cls_known_implementations = Some known"
    and old: "map_of known tn = Some old" and ne: "old \<noteq> chosen"
    and c: "inner_pluggable n name ty self v = (r, v')"
  shows "NewImplementation tn \<in> set (warnings v')"
    and "r = Inr self' \<Longrightarrow>
           \<exists>m args kwargs v1 obj. n = Suc m
              \<and> inst_getattr v1 self (name @ ''_'' @ tn @ ARGS_SUFFIX) = Some args
              \<and> kwargs_of args = Inr kwargs
              \<and> construct m chosen kwargs v1 = (Inr obj, v')
              \<and> self' = inst_setattr self name obj"
proof -
  have ch: "chosen_class_of v ty (VStr tn) = Inr chosen" using g by (simp add: chosen_class_of_def)
  have st: "stale known (type_name_str (VStr tn)) chosen"
    using old ne by (simp add: stale_def type_name_str_def)
  have tns: "type_name_str (VStr tn) = tn" by (simp add: type_name_str_def)
  let ?w0 = "warn (NewImplementation tn) v"
  obtain x y where e: "expand_args_fields n chosen [] ?w0 = (x, y)"
    by (cases "expand_args_fields n chosen [] ?w0")
  have in0: "NewImplementation tn \<in> set (warnings ?w0)" by (simp add: warn_def)
  with expand_warnings[OF e] have iny: "NewImplementation tn \<in> set (warnings y)" by blast
  have unfold: "inner_pluggable n name ty self v =
      (case x of Inl e \<Rightarrow> (Inl e, y)
       | Inr _ \<Rightarrow>
        (case inst_getattr y self (name @ ''_'' @ tn @ ARGS_SUFFIX) of
           None \<Rightarrow> (Inl (AttributeError (name @ ''_'' @ tn @ ARGS_SUFFIX)), y)
         | Some args \<Rightarrow>
            (case kwargs_of args of
               Inl e \<Rightarrow> (Inl e, y)
             | Inr kwargs \<Rightarrow>
                (case n of
                   0 \<Rightarrow> (Inl RecursionError, y)
                 | Suc m \<Rightarrow>
                    (case construct m chosen kwargs y of
                       (Inl e, w2) \<Rightarrow> (Inl e, w2)
                     | (Inr obj, w2) \<Rightarrow> (Inr (inst_setattr self name obj), w2))))))"
    using t ch kn st e by (simp add: tns split: sum.splits option.splits)
  show "NewImplementation tn \<in> set (warnings v')"
  proof (cases "\<exists>b args kw m. x = Inr b
                    \<and> inst_getattr y self (name @ ''_'' @ tn @ ARGS_SUFFIX) = Some args
                    \<and> kwargs_of args = Inr kw \<and> n = Suc m")
    case True
    then obtain b args kw m where x: "x = Inr b"
      and a: "inst_getattr y self (name @ ''_'' @ tn @ ARGS_SUFFIX) = Some args"
      and k: "kwargs_of args = Inr kw" and n: "n = Suc m" by blast
    obtain x2 y2 where cc: "construct m chosen kw y = (x2, y2)"
      by (cases "construct m chosen kw y")
    from construct_warnings(1) cc have "set (warnings y) \<subseteq> set (warnings y2)" by blast
    moreover from c unfold x a k n cc have "v' = y2" by (auto split: sum.splits)
    ultimately show ?thesis using iny by blast
  next
    case False
    with c unfold have "v' = y" by (cases n) (auto split: sum.splits option.splits)
    with iny show ?thesis by simp
  qed
  show "\<exists>m args kwargs v1 obj. n = Suc m
              \<and> inst_getattr v1 self (name @ ''_'' @ tn @ ARGS_SUFFIX) = Some args
              \<and> kwargs_of args = Inr kwargs
              \<and> construct m chosen kwargs v1 = (Inr obj, v')
              \<and> self' = inst_setattr self name obj" if "r = Inr self'"
  proof -
    from that c unfold obtain b args kw m obj where x: "x = Inr b"
      and a: "inst_getattr y self (name @ ''_'' @ tn @ ARGS_SUFFIX) = Some args"
      and k: "kwargs_of args = Inr kw" and n: "n = Suc m"
      and cc: "construct m chosen kw y = (Inr obj, v')" and s: "self' = inst_setattr self name obj"
      by (cases n) (auto split: sum.splits option.splits prod.splits)
    then show ?thesis by blast
  qed
qed

lemma registry_register_overwrites:
  assumes "base_class_from_class w c = Some b" "c \<noteq> b"
  shows "\<exists>w1. registry_register w c = (Inr c, w1)
           \<and> map_of (registry w1 b) (cname (classes w c)) = Some c
           \<and> warnings w1 = warnings w"
  using assms by (simp add: registry_register_def register'_def update_conv')

lemma stale_member_D:
  assumes "stale_member w self name ty tn chosen"
  obtains known old where "inst_getattr w self (name @ TYPE_SUFFIX) = Some (VStr tn)"
    "registry_get w ty tn = Inr chosen"
    "inst_class_attr w self cls_known_implementations = Some known"
    "map_of known tn = Some old" "old \<noteq> chosen"
  using assms by (auto simp: stale_member_def stale_def split: option.splits)

lemma inner_pluggable_stale_outcome:
  assumes st: "stale_member v self name ty tn chosen"
    and e: "expand_args_fields (Suc m) chosen [] (warn (NewImplementation tn) v) = (Inr u, v1)"
    and a: "inst_getattr v1 self (name @ ''_'' @ tn @ ARGS_SUFFIX) = Some args"
    and k: "kwargs_of args = Inr kwargs"
  shows "inner_pluggable (Suc m) name ty self v
           = (case construct m chosen kwargs v1 of
                (Inl e, v2) \<Rightarrow> (Inl e, v2)
              | (Inr obj, v2) \<Rightarrow> (Inr (inst_setattr self name obj), v2))"
proof -
  from st obtain known old where t: "inst_getattr v self (name @ TYPE_SUFFIX) = Some (VStr tn)"
    and g: "registry_get v ty tn = Inr chosen"
    and kn: "inst_class_attr v self cls_known_implementations = Some known"
    and old: "map_of known tn = Some old" and ne: "old \<noteq> chosen"
    by (rule stale_member_D)
  have ch: "chosen_class_of v ty (VStr tn) = Inr chosen" using g by (simp add: chosen_class_of_def)
  have s: "stale known (type_name_str (VStr tn)) chosen"
    using old ne by (simp add: stale_def type_name_str_def)
  have tns: "type_name_str (VStr tn) = tn" by (simp add: type_name_str_def)
  from t ch kn s e a k show ?thesis by (simp add: tns)
qed

lemma run_creations_append:
  "run_creations n (xs @ ys) self w
     = (case run_creations n xs self w of
          (Inl e, w1) \<Rightarrow> (Inl e, w1)
        | (Inr self1, w1) \<Rightarrow> run_creations n ys self1 w1)"
proof (induction xs arbitrary: self w)
  case Nil
  show ?case by simp
next
  case (Cons x xs)
  show ?case
  proof (cases "inst_getattr w self x")
    case None
    then show ?thesis by simp
  next
    case (Some f)
    obtain r w1 where c: "call_method n f self w = (r, w1)" by (cases "call_method n f self w")
    show ?thesis
    proof (cases r)
      case (Inl e)
      with Some c show ?thesis by simp
    next
      case (Inr self1)
      with Some c Cons.IH[of self1 w1] show ?thesis by simp
    qed
  qed
qed

lemma run_auto_creation_stale:
  assumes cfs: "inst_class_attr x inst cls_creation_functions
                  = Some (pre @ (''create_'' @ name) # rest)"
    and pre: "run_creations (Suc m) pre inst x = (Inr self, v)"
    and cr: "inst_getattr v self (''create_'' @ name) = Some (VCreate name ty True)"
    and st: "stale_member v self name ty tn chosen"
    and e: "expand_args_fields (Suc m) chosen [] (warn (NewImplementation tn) v) = (Inr u, v1)"
    and a: "inst_getattr v1 self (name @ ''_'' @ tn @ ARGS_SUFFIX) = Some args"
    and k: "kwargs_of args = Inr kwargs"
    and c: "construct m chosen kwargs v1 = (Inr obj, v2)"
  shows "run_auto_creation (Suc m) inst x
           = run_creations (Suc m) rest (inst_setattr self name obj) v2"
    and "NewImplementation tn \<in> set (warnings (snd (run_auto_creation (Suc m) inst x)))"
proof -
  from inner_pluggable_stale_outcome[OF st e a k] c
  have ip: "inner_pluggable (Suc m) name ty self v = (Inr (inst_setattr self name obj), v2)"
    by simp
  from cfs pre cr ip
  show r: "run_auto_creation (Suc m) inst x
           = run_creations (Suc m) rest (inst_setattr self name obj) v2"
    by (simp add: run_creations_append del: run_creations.simps(2) inner_pluggable.simps)
       (simp del: inner_pluggable.simps)
  have "NewImplementation tn \<in> set (warnings (warn (NewImplementation tn) v))"
    by (simp add: warn_def)
  with expand_warnings[OF e] have "NewImplementation tn \<in> set (warnings v1)" by blast
  with construct_warnings(1)[rule_format, OF c] have in2: "NewImplementation tn \<in> set (warnings v2)"
    by blast
  obtain r' w' where rc: "run_creations (Suc m) rest (inst_setattr self name obj) v2 = (r', w')"
    by (cases "run_creations (Suc m) rest (inst_setattr self name obj) v2")
  from construct_warnings(4)[rule_format, OF rc] in2 have "NewImplementation tn \<in> set (warnings w')"
    by blast
  with r rc show "NewImplementation tn \<in> set (warnings (snd (run_auto_creation (Suc m) inst x)))"
    by simp
qed

text \<open>
  Claim C5.  Registering a class under a name the namespace already holds raises nothing,
  issues no warning and makes the name resolve to the new class.  When the class registered
  under the name an instance selects is not the one the owner recorded when it was
  processed, the generated creation function of the pluggable member issues the warning,
  whatever happens afterwards, and goes on: its outcome is that of constructing the class
  the registry holds now from the \<^verbatim>\<open><member>_<name>_args\<close> of the instance, and no error comes
  from the diagnostic.  So \<^verbatim>\<open>run_auto_creation\<close> on such an instance, when that construction
  returns, sets the member to the new instance, goes on with the remaining creation
  functions and leaves the warning among those issued.
\<close>

theorem reregistration_and_staleness:
  "(base_class_from_class w c = Some b \<and> c \<noteq> b \<longrightarrow>
       (\<exists>w1. registry_register w c = (Inr c, w1)
           \<and> map_of (registry w1 b) (cname (classes w c)) = Some c
           \<and> warnings w1 = warnings w))
   \<and> (stale_member v self name ty tn chosen \<and> inner_pluggable n name ty self v = (r, v')
      \<longrightarrow> NewImplementation tn \<in> set (warnings v'))
   \<and> (stale_member v self name ty tn chosen
      \<and> expand_args_fields (Suc m) chosen [] (warn (NewImplementation tn) v) = (Inr u, v1)
      \<and> inst_getattr v1 self (name @ ''_'' @ tn @ ARGS_SUFFIX) = Some args
      \<and> kwargs_of args = Inr kwargs
      \<longrightarrow> inner_pluggable (Suc m) name ty self v
            = (case construct m chosen kwargs v1 of
                 (Inl e, v2) \<Rightarrow> (Inl e, v2)
               | (Inr obj, v2) \<Rightarrow> (Inr (inst_setattr self name obj), v2)))
   \<and> (inst_class_attr x inst cls_creation_functions = Some (pre @ (''create_'' @ name) # rest)
      \<and> run_creations (Suc m) pre inst x = (Inr self, v)
      \<and> inst_getattr v self (''create_'' @ name) = Some (VCreate name ty True)
      \<and> stale_member v self name ty tn chosen
      \<and> expand_args_fields (Suc m) chosen [] (warn (NewImplementation tn) v) = (Inr u, v1)
      \<and> inst_getattr v1 self (name @ ''_'' @ tn @ ARGS_SUFFIX) = Some args
      \<and> kwargs_of args = Inr kwargs
      \<and> construct m chosen kwargs v1 = (Inr member, v2)
      \<longrightarrow> run_auto_creation (Suc m) inst x
            = run_creations (Suc m) rest (inst_setattr self name member) v2
          \<and> NewImplementation tn \<in> set (warnings (snd (run_auto_creation (Suc m) inst x))))"
proof (intro conjI impI)
  assume "base_class_from_class w c = Some b \<and> c \<noteq> b"
  then show "\<exists>w1. registry_register w c = (Inr c, w1)
           \<and> map_of (registry w1 b) (cname (classes w c)) = Some c
           \<and> warnings w1 = warnings w"
    using registry_register_overwrites by blast
next
  assume a: "stale_member v self name ty tn chosen \<and> inner_pluggable n name ty self v = (r, v')"
  then have st: "stale_member v self name ty tn chosen"
    and c: "inner_pluggable n name ty self v = (r, v')" by blast+
  from st obtain known old where "inst_getattr v self (name @ TYPE_SUFFIX) = Some (VStr tn)"
    "registry_get v ty tn = Inr chosen"
    "inst_class_attr v self cls_known_implementations = Some known"
    "map_of known tn = Some old" "old \<noteq> chosen"
    by (rule stale_member_D)
  then show "NewImplementation tn \<in> set (warnings v')"
    using c by (rule inner_pluggable_stale(1))
next
  assume "stale_member v self name ty tn chosen
      \<and> expand_args_fields (Suc m) chosen [] (warn (NewImplementation tn) v) = (Inr u, v1)
      \<and> inst_getattr v1 self (name @ ''_'' @ tn @ ARGS_SUFFIX) = Some args
      \<and> kwargs_of args = Inr kwargs"
  then show "inner_pluggable (Suc m) name ty self v
            = (case construct m chosen kwargs v1 of
                 (Inl e, v2) \<Rightarrow> (Inl e, v2)
               | (Inr obj, v2) \<Rightarrow> (Inr (inst_setattr self name obj), v2))"
    using inner_pluggable_stale_outcome by blast
next
  assume a: "inst_class_attr x inst cls_creation_functions = Some (pre @ (''create_'' @ name) # rest)
      \<and> run_creations (Suc m) pre inst x = (Inr self, v)
      \<and> inst_getattr v self (''create_'' @ name) = Some (VCreate name ty True)
      \<and> stale_member v self name ty tn chosen
      \<and> expand_args_fields (Suc m) chosen [] (warn (NewImplementation tn) v) = (Inr u, v1)
      \<and> inst_getattr v1 self (name @ ''_'' @ tn @ ARGS_SUFFIX) = Some args
      \<and> kwargs_of args = Inr kwargs
      \<and> construct m chosen kwargs v1 = (Inr member, v2)"
  then have h: "inst_class_attr x inst cls_creation_functions = Some (pre @ (''create_'' @ name) # rest)"
    "run_creations (Suc m) pre inst x = (Inr self, v)"
    "inst_getattr v self (''create_'' @ name) = Some (VCreate name ty True)"
    "stale_member v self name ty tn chosen"
    "expand_args_fields (Suc m) chosen [] (warn (NewImplementation tn) v) = (Inr u, v1)"
    "inst_getattr v1 self (name @ ''_'' @ tn @ ARGS_SUFFIX) = Some args"
    "kwargs_of args = Inr kwargs"
    "construct m chosen kwargs v1 = (Inr member, v2)"
    by blast+
  show "run_auto_creation (Suc m) inst x
            = run_creations (Suc m) rest (inst_setattr self name member) v2"
    by (rule run_auto_creation_stale(1)[OF h])
  show "NewImplementation tn \<in> set (warnings (snd (run_auto_creation (Suc m) inst x)))"
    by (rule run_auto_creation_stale(2)[OF h])
qed

lemmas redefined_defs = is_actually_dataclass_def to_process_def seal_def dataclass_def
  upd_class_def class_setattr_def set_annotation_def own_annotations_def warn_def
  issubclass_def is_base_class_def base_class_from_class_def registry_get_all_def
  registry_get_def dict_values_def dict_update_def mro_lookup_def class_getattr_def
  inherited_fields_def get_field_def is_field_def clashes_def merge_base_def
  process_member_def add_creation_function_def classify_def map_filter_simps
  TYPE_SUFFIX_def ARGS_SUFFIX_def plain_class_def builtin_classes_def
  class_A_def class_A1_def class_A2_def class_B_def sealed_defs class_A2_new_def
  is_configurable_class_def redefined_classes redefined_registry redefined_rest
  construct_defs tree_defs expand_sealed Let_def

text \<open>
  In Scenario A with \<^verbatim>\<open>B\<close> processed, a second class \<^verbatim>\<open>A2\<close> is registered: the name resolves
  to it, \<^verbatim>\<open>run_auto_creation\<close> on an instance of \<^verbatim>\<open>B\<close> returns with the member an instance of
  the second class, and the warning has been issued.
\<close>

theorem reregistration_and_staleness_witness:
  "map_of (registry redeclared cls_A) ''A2'' = Some cls_A2
   \<and> fst (registry_register redeclared (Cls 4)) = Inr (Cls 4)
   \<and> map_of (registry redefined cls_A) ''A2'' = Some (Cls 4)
   \<and> warnings redefined = []
   \<and> stale_member redefined (VInst cls_B scenario_kwargs) ''a'' cls_A ''A2'' (Cls 4)
   \<and> fst (run_auto_creation (Suc (Suc 0)) (VInst cls_B scenario_kwargs) redefined)
       = Inr (VInst cls_B (scenario_kwargs @ [(''a'', VInst (Cls 4) [(''n'', VStr ''2'')])]))
   \<and> NewImplementation ''A2''
       \<in> set (warnings (snd (run_auto_creation (Suc (Suc 0)) (VInst cls_B scenario_kwargs)
                                redefined)))
   \<and> fst (inner_pluggable (Suc (Suc 0)) ''a'' cls_A (VInst cls_B scenario_kwargs) redefined)
       = Inr (VInst cls_B (scenario_kwargs @ [(''a'', VInst (Cls 4) [(''n'', VStr ''2'')])]))
   \<and> NewImplementation ''A2''
       \<in> set (warnings (snd (inner_pluggable (Suc (Suc 0)) ''a'' cls_A
                                (VInst cls_B scenario_kwargs) redefined)))"
proof -
  let ?inst = "VInst cls_B scenario_kwargs"
  let ?e = "expand_args_fields (Suc (Suc 0)) (Cls 4) [] (warn (NewImplementation ''A2'') redefined)"
  let ?c = "construct (Suc 0) (Cls 4) [(''n'', VStr ''2'')] (snd ?e)"
  have 1: "map_of (registry redeclared cls_A) ''A2'' = Some cls_A2"
    by (simp add: redeclared_def processed_registry)
  have b: "base_class_from_class redeclared (Cls 4) = Some cls_A"
    by (simp add: redeclared_def processed_classes base_class_from_class_def issubclass_def
          class_A2_new_def plain_class_def sealed_defs class_A_def class_A1_def class_A2_def
          class_B_def builtin_classes_def)
  have ne: "Cls 4 \<noteq> cls_A" by simp
  from reregistration_and_staleness[where w = redeclared and c = "Cls 4" and b = cls_A] b ne
  have 2: "fst (registry_register redeclared (Cls 4)) = Inr (Cls 4)" by force
  have 3: "map_of (registry redefined cls_A) ''A2'' = Some (Cls 4)"
    by (simp add: redefined_registry)
  have 4: "warnings redefined = []" by (rule redefined_rest)
  have st: "stale_member redefined ?inst ''a'' cls_A ''A2'' (Cls 4)"
    by (simp add: stale_member_def redefined_defs)
  have cfs: "inst_class_attr redefined ?inst cls_creation_functions
               = Some ([] @ (''create_'' @ ''a'') # [])"
    by (simp add: redefined_defs)
  have pre: "run_creations (Suc (Suc 0)) [] ?inst redefined = (Inr ?inst, redefined)" by simp
  have cr: "inst_getattr redefined ?inst (''create_'' @ ''a'') = Some (VCreate ''a'' cls_A True)"
    by (simp add: redefined_defs)
  have "fst ?e = Inr ()" by (simp add: redefined_defs)
  then have e: "?e = (Inr (), snd ?e)" by (metis prod.collapse)
  have a: "inst_getattr (snd ?e) ?inst (''a'' @ ''_'' @ ''A2'' @ ARGS_SUFFIX)
             = Some (VDict [(SKey ''n'', VStr ''2'')])"
    by (simp add: inst_getattr_def scenario_kwargs_def ARGS_SUFFIX_def)
  have k: "kwargs_of (VDict [(SKey ''n'', VStr ''2'')]) = Inr [(''n'', VStr ''2'')]"
    by (simp add: kwargs_of_def kwargs_items_def map_filter_simps)
  have "fst ?c = Inr (VInst (Cls 4) [(''n'', VStr ''2'')])" by (simp add: redefined_defs)
  then have c: "?c = (Inr (VInst (Cls 4) [(''n'', VStr ''2'')]), snd ?c)" by (metis prod.collapse)
  note at_scenario = reregistration_and_staleness[where x = redefined and inst = ?inst
      and pre = "[]" and rest = "[]" and name = "''a''" and ty = cls_A and tn = "''A2''"
      and chosen = "Cls 4" and m = "Suc 0" and self = ?inst and v = redefined and u = "()"
      and ?v1.0 = "snd ?e" and args = "VDict [(SKey ''n'', VStr ''2'')]"
      and kwargs = "[(''n'', VStr ''2'')]" and member = "VInst (Cls 4) [(''n'', VStr ''2'')]"
      and ?v2.0 = "snd ?c"
      and n = "Suc (Suc 0)"
      and r = "fst (inner_pluggable (Suc (Suc 0)) ''a'' cls_A ?inst redefined)"
      and v' = "snd (inner_pluggable (Suc (Suc 0)) ''a'' cls_A ?inst redefined)"]
  from at_scenario cfs pre cr st e a k c
  have r: "run_auto_creation (Suc (Suc 0)) ?inst redefined
         = run_creations (Suc (Suc 0)) []
             (inst_setattr ?inst ''a'' (VInst (Cls 4) [(''n'', VStr ''2'')])) (snd ?c)"
    and 7: "NewImplementation ''A2''
       \<in> set (warnings (snd (run_auto_creation (Suc (Suc 0)) ?inst redefined)))"
    by blast+
  from r have 6: "fst (run_auto_creation (Suc (Suc 0)) ?inst redefined)
       = Inr (VInst cls_B (scenario_kwargs @ [(''a'', VInst (Cls 4) [(''n'', VStr ''2'')])]))"
    by (simp add: inst_setattr_def scenario_kwargs_def)
  define cc where "cc = ?c"
  from c have fc: "fst cc = Inr (VInst (Cls 4) [(''n'', VStr ''2'')])"
    unfolding cc_def by (metis fst_conv)
  from at_scenario st e a k
  have "inner_pluggable (Suc (Suc 0)) ''a'' cls_A ?inst redefined
          = (case cc of
               (Inl e, v2) \<Rightarrow> (Inl e, v2)
             | (Inr obj, v2) \<Rightarrow> (Inr (inst_setattr ?inst ''a'' obj), v2))"
    unfolding cc_def by blast
  with fc have "fst (inner_pluggable (Suc (Suc 0)) ''a'' cls_A ?inst redefined)
       = Inr (inst_setattr ?inst ''a'' (VInst (Cls 4) [(''n'', VStr ''2'')]))"
    by (cases cc) (simp del: inner_pluggable.simps)
  then have 8: "fst (inner_pluggable (Suc (Suc 0)) ''a'' cls_A ?inst redefined)
       = Inr (VInst cls_B (scenario_kwargs @ [(''a'', VInst (Cls 4) [(''n'', VStr ''2'')])]))"
    by (simp add: inst_setattr_def scenario_kwargs_def del: inner_pluggable.simps)
  have pc: "inner_pluggable (Suc (Suc 0)) ''a'' cls_A ?inst redefined
      = (fst (inner_pluggable (Suc (Suc 0)) ''a'' cls_A ?inst redefined),
         snd (inner_pluggable (Suc (Suc 0)) ''a'' cls_A ?inst redefined))"
    by (simp only: prod.collapse)
  from at_scenario st pc
  have 9: "NewImplementation ''A2''
       \<in> set (warnings (snd (inner_pluggable (Suc (Suc 0)) ''a'' cls_A ?inst redefined)))"
    by blast
  from 1 2 3 4 st 6 7 8 9 show ?thesis by (intro conjI)
qed

section \<open>Classification of members and the generated fields\<close>


lemma own_annotations_set_annotation [simp]:
  "own_annotations (set_annotation w C k v) C = AList.update k v (own_annotations w C)"
  by (simp add: own_annotations_def set_annotation_def upd_class_def)

lemma own_annotations_class_setattr [simp]:
  "own_annotations (class_setattr w C k v) c = own_annotations w c"
  by (simp add: own_annotations_def class_setattr_def upd_class_def)

lemma attrs_set_annotation [simp]:
  "attrs (classes (set_annotation w C k v) c) = attrs (classes w c)"
  by (simp add: set_annotation_def upd_class_def)

lemma attrs_class_setattr [simp]:
  "attrs (classes (class_setattr w C k v) C) = AList.update k v (attrs (classes w C))"
  by (simp add: class_setattr_def upd_class_def)

lemma frame_cname: "frame P w w' \<Longrightarrow> cname (classes w' c) = cname (classes w c)"
  by (simp add: frame_def)

lemma frame_registry_get_all:
  assumes "frame P w w'"
  shows "registry_get_all w' ty = registry_get_all w ty"
proof -
  have i: "\<And>a b. issubclass w' a b = issubclass w a b" by (rule frame_issubclass[OF assms])
  have b: "is_base_class w' ty = is_base_class w ty"
    using assms by (simp add: is_base_class_def frame_def)
  have m: "mro (classes w' ty) = mro (classes w ty)" using assms by (simp add: frame_def)
  have f: "base_class_from_class w' ty = base_class_from_class w ty"
    by (simp add: base_class_from_class_def i m)
  have r: "registry w' = registry w" using assms by (simp add: frame_def)
  show ?thesis by (simp add: registry_get_all_def i b f r split: option.splits)
qed

lemma add_implementations_keys:
  "add_implementations name C dnp derived ki w = (Inr ki', w') \<Longrightarrow>
     fst ` set (own_annotations w' C)
       = fst ` set (own_annotations w C) \<union> args_name w name ` set (offered w C dnp derived)
     \<and> (\<forall>k. k \<notin> args_name w name ` set (offered w C dnp derived)
            \<longrightarrow> map_of (attrs (classes w' C)) k = map_of (attrs (classes w C)) k)
     \<and> (\<forall>d \<in> set (offered w C dnp derived).
            args_name w name d \<in> dom (map_of (attrs (classes w' C))))"
proof (induction derived arbitrary: ki w)
  case Nil
  then show ?case by (simp add: offered_def)
next
  case (Cons d ds)
  let ?an = "name @ ''_'' @ cname (classes w d) @ ARGS_SUFFIX"
  let ?w1 = "class_setattr (set_annotation w C ?an (VClass DictConfig_c)) C ?an
               (VField (VClass d) (dnp @ [C]))"
  have f1: "frame (\<lambda>c. c = C) w ?w1" by (rule frame_set_both)
  have an1: "args_name ?w1 name = args_name w name"
    using frame_cname[OF f1] by (intro ext) (simp add: args_name_def)
  have of1: "offered ?w1 C dnp ds = offered w C dnp ds"
    using frame_issubclass[OF f1] by (simp add: offered_def)
  show ?case
  proof (cases "d \<in> set dnp \<or> issubclass w d C")
    case True
    with Cons.prems have "add_implementations name C dnp ds ki w = (Inr ki', w')"
      by (auto split: if_splits)
    from Cons.IH[OF this] True show ?thesis by (auto simp: offered_def)
  next
    case False
    with Cons.prems have nin: "?an \<notin> fst ` set (own_annotations w C)"
      and rec: "add_implementations name C dnp ds (AList.update (cname (classes w d)) d ki) ?w1
                  = (Inr ki', w')"
      by (auto split: if_splits)
    note IH = Cons.IH[OF rec, unfolded an1 of1]
    have off: "offered w C dnp (d # ds) = d # offered w C dnp ds"
      using False by (simp add: offered_def)
    have an: "args_name w name d = ?an" by (simp add: args_name_def)
    have keys: "fst ` set (own_annotations w' C)
       = fst ` set (own_annotations w C) \<union> args_name w name ` set (offered w C dnp (d # ds))"
      using IH by (auto simp: off an dom_update)
    have attrs: "map_of (attrs (classes w' C)) k = map_of (attrs (classes w C)) k"
      if "k \<notin> args_name w name ` set (offered w C dnp (d # ds))" for k
    proof -
      from that have k1: "k \<notin> args_name w name ` set (offered w C dnp ds)" and k2: "k \<noteq> ?an"
        by (auto simp: off an)
      from IH k1 have "map_of (attrs (classes w' C)) k = map_of (attrs (classes ?w1 C)) k" by blast
      also have "\<dots> = map_of (attrs (classes w C)) k" using k2 by (simp add: update_conv')
      finally show ?thesis .
    qed
    have dom: "args_name w name x \<in> dom (map_of (attrs (classes w' C)))"
      if "x \<in> set (offered w C dnp (d # ds))" for x
    proof (cases "args_name w name x \<in> args_name w name ` set (offered w C dnp ds)")
      case True
      then obtain x' where "x' \<in> set (offered w C dnp ds)" "args_name w name x = args_name w name x'"
        by blast
      with IH show ?thesis by metis
    next
      case False
      with that have "args_name w name x = ?an" by (auto simp: off an)
      moreover from IH False
      have "map_of (attrs (classes w' C)) (args_name w name x)
            = map_of (attrs (classes ?w1 C)) (args_name w name x)" by blast
      ultimately show ?thesis by (auto simp: update_conv')
    qed
    from keys attrs dom show ?thesis by blast
  qed
qed

lemma update_fresh: "k \<notin> fst ` set al \<Longrightarrow> AList.update k v al = al @ [(k, v)]"
  by (induction al) auto

lemma delete_key_set: "fst ` set (AList.delete k al) = fst ` set al - {k}"
proof -
  have "fst ` set (AList.delete k al) = set (map fst (AList.delete k al))" by simp
  also have "\<dots> = set (map fst al) - {k}" by (simp only: delete_keys set_removeAll)
  finally show ?thesis by simp
qed

lemma create_neq_args: "''create_'' @ name \<noteq> name @ ARGS_SUFFIX"
proof
  assume "''create_'' @ name = name @ ARGS_SUFFIX"
  then have "length (''create_'' @ name) = length (name @ ARGS_SUFFIX)" by (rule arg_cong)
  then show False by (simp add: ARGS_SUFFIX_def)
qed

lemma create_neq_type: "''create_'' @ name \<noteq> name @ TYPE_SUFFIX"
proof
  assume "''create_'' @ name = name @ TYPE_SUFFIX"
  then have "length (''create_'' @ name) = length (name @ TYPE_SUFFIX)" by (rule arg_cong)
  then show False by (simp add: TYPE_SUFFIX_def)
qed

lemma type_neq_args: "name @ TYPE_SUFFIX \<noteq> x @ ARGS_SUFFIX"
proof
  assume "name @ TYPE_SUFFIX = x @ ARGS_SUFFIX"
  then have "last (name @ TYPE_SUFFIX) = last (x @ ARGS_SUFFIX)" by (rule arg_cong)
  then show False by (simp add: TYPE_SUFFIX_def ARGS_SUFFIX_def)
qed

lemma class_getattr_other:
  assumes "\<And>c. mro (classes w' c) = mro (classes w c)"
    and "\<And>c. map_of (attrs (classes w' c)) k = map_of (attrs (classes w c)) k"
  shows "class_getattr w' c k = class_getattr w c k"
proof -
  have "first_some (\<lambda>b. map_of (attrs (classes w' b)) k) xs
        = first_some (\<lambda>b. map_of (attrs (classes w b)) k) xs" for xs
    by (induction xs) (simp_all add: assms(2))
  then show ?thesis by (simp add: class_getattr_def mro_lookup_def assms(1))
qed

lemma add_creation_function_result:
  assumes "add_creation_function name ty p C cf w = (cf', w')"
  shows "cf' = cf @ [''create_'' @ name]"
    and "annotations (classes w' C) = annotations (classes w C)"
    and "k \<noteq> ''create_'' @ name
           \<Longrightarrow> map_of (attrs (classes w' C)) k = map_of (attrs (classes w C)) k"
    and "class_getattr w C (''create_'' @ name) = None
           \<Longrightarrow> map_of (attrs (classes w' C)) (''create_'' @ name) = Some (VCreate name ty p)"
  using assms
  by (auto simp: add_creation_function_def class_setattr_def upd_class_def update_conv'
           split: if_splits)

lemma process_member_fixed:
  assumes pm: "process_member name ty False C cf dnp ki w = (Inr (cf', ki'), w')"
  shows "\<exists>a. annotations (classes w C) = Some a \<and> name \<in> fst ` set a
        \<and> annotations (classes w' C)
            = Some (AList.delete name a @ [(name @ ARGS_SUFFIX, VClass DictConfig_c)])
        \<and> cf' = cf @ [''create_'' @ name] \<and> ki' = ki
        \<and> map_of (attrs (classes w' C)) (name @ ARGS_SUFFIX)
            = Some (VField (VClass ty) (dnp @ [C]))
        \<and> (class_getattr w C (''create_'' @ name) = None
             \<longrightarrow> map_of (attrs (classes w' C)) (''create_'' @ name)
                   = Some (VCreate name ty False))"
proof -
  from pm obtain a where a: "annotations (classes w C) = Some a"
    by (cases "annotations (classes w C)") (auto simp: process_member_def)
  from pm a have n: "name \<in> fst ` set a"
    by (auto simp: process_member_def split: if_splits)
  let ?w0 = "upd_class w C (\<lambda>k. k\<lparr>annotations := Some (AList.delete name a)\<rparr>)"
  have oa0: "own_annotations ?w0 C = AList.delete name a"
    by (simp add: own_annotations_def upd_class_def)
  let ?w2 = "class_setattr (set_annotation ?w0 C (name @ ARGS_SUFFIX) (VClass DictConfig_c))
               C (name @ ARGS_SUFFIX) (VField (VClass ty) (dnp @ [C]))"
  from pm a n have fresh: "name @ ARGS_SUFFIX \<notin> fst ` set (AList.delete name a)"
    and ac: "add_creation_function name ty False C cf ?w2 = (cf', w')" and ki: "ki' = ki"
    by (auto simp: process_member_def Let_def oa0 split: if_splits prod.splits)
  have ann2: "annotations (classes ?w2 C)
      = Some (AList.delete name a @ [(name @ ARGS_SUFFIX, VClass DictConfig_c)])"
    using update_fresh[OF fresh]
    by (simp add: class_setattr_def set_annotation_def upd_class_def own_annotations_def)
  have at2: "map_of (attrs (classes ?w2 C)) (name @ ARGS_SUFFIX)
      = Some (VField (VClass ty) (dnp @ [C]))"
    by (simp add: update_conv')
  have ga: "class_getattr ?w2 C (''create_'' @ name) = class_getattr w C (''create_'' @ name)"
    using create_neq_args[of name]
    by (intro class_getattr_other)
       (auto simp: class_setattr_def set_annotation_def upd_class_def update_conv')
  note r = add_creation_function_result[OF ac]
  from r(1) r(2) r(3)[of "name @ ARGS_SUFFIX"] r(4) a n ann2 at2 ga ki create_neq_args[of name]
  show ?thesis by (metis)
qed

lemma process_member_pluggable:
  assumes pm: "process_member name ty True C cf dnp ki w = (Inr (cf', ki'), w')"
  shows "\<exists>a derived. annotations (classes w C) = Some a \<and> name \<in> fst ` set a
        \<and> registry_get_all w ty = Inr derived
        \<and> fst ` set (own_annotations w' C)
            = (fst ` set a - {name}) \<union> new_annotation_keys w name ty C dnp
        \<and> cf' = cf @ [''create_'' @ name]
        \<and> (name @ TYPE_SUFFIX \<notin> fst ` set a - {name}
             \<longrightarrow> map_of (attrs (classes w' C)) (name @ TYPE_SUFFIX) = Some (VStr ''UNDEFAULTED''))
        \<and> (\<forall>d \<in> set (offered w C dnp derived).
               args_name w name d \<in> dom (map_of (attrs (classes w' C))))"
proof -
  from pm obtain a where a: "annotations (classes w C) = Some a"
    by (cases "annotations (classes w C)") (auto simp: process_member_def)
  from pm a have n: "name \<in> fst ` set a"
    by (auto simp: process_member_def split: if_splits)
  let ?w0 = "upd_class w C (\<lambda>k. k\<lparr>annotations := Some (AList.delete name a)\<rparr>)"
  have f0: "frame (\<lambda>c. c = C) w ?w0" by (rule frame_upd_class) simp
  have oa0: "own_annotations ?w0 C = AList.delete name a"
    by (simp add: own_annotations_def upd_class_def)
  have k0: "fst ` set (own_annotations ?w0 C) = fst ` set a - {name}"
    by (simp only: oa0 delete_key_set)
  let ?tn = "name @ TYPE_SUFFIX"
  let ?w1 = "(if ?tn \<notin> fst ` set (own_annotations ?w0 C)
              then class_setattr (set_annotation ?w0 C ?tn (VClass str_c)) C ?tn (VStr ''UNDEFAULTED'')
              else ?w0)"
  have f01: "frame (\<lambda>c. c = C) ?w0 ?w1"
    by (simp only: frame_set_both frame_refl if_split simp_thms)
  have f1: "frame (\<lambda>c. c = C) w ?w1" by (rule frame_same[OF f0 f01])
  have k1: "fst ` set (own_annotations ?w1 C) = insert ?tn (fst ` set a - {name})"
    using k0 by (auto simp: dom_update)
  have t1: "?tn \<notin> fst ` set a - {name}
            \<Longrightarrow> map_of (attrs (classes ?w1 C)) ?tn = Some (VStr ''UNDEFAULTED'')"
    using k0 by (simp add: update_conv')
  from pm a n obtain derived where g1: "registry_get_all ?w1 ty = Inr derived"
    by (cases "registry_get_all ?w1 ty") (auto simp: process_member_def Let_def)
  have g: "registry_get_all w ty = Inr derived"
    using frame_registry_get_all[OF f1] g1 by simp
  from pm a n g1 obtain w2 where
    ai: "add_implementations name C dnp derived ki ?w1 = (Inr ki', w2)"
    and ac: "add_creation_function name ty True C cf w2 = (cf', w')"
    by (auto simp: process_member_def Let_def split: prod.splits sum.splits)
  have an1: "args_name ?w1 name = args_name w name"
    using frame_cname[OF f1] by (intro ext) (simp add: args_name_def)
  have of1: "offered ?w1 C dnp derived = offered w C dnp derived"
    using frame_issubclass[OF f1] by (simp add: offered_def)
  note K = add_implementations_keys[OF ai, unfolded an1 of1]
  note r = add_creation_function_result[OF ac]
  have keys: "fst ` set (own_annotations w' C)
            = (fst ` set a - {name}) \<union> new_annotation_keys w name ty C dnp"
  proof -
    have "own_annotations w' C = own_annotations w2 C"
      using r(2) by (simp add: own_annotations_def)
    with K k1 show ?thesis by (auto simp: new_annotation_keys_def g)
  qed
  have "?tn \<noteq> args_name w name d" for d
    using type_neq_args[of name "name @ ''_'' @ cname (classes w d)"]
    by (simp add: args_name_def)
  then have tnot: "?tn \<notin> args_name w name ` set (offered w C dnp derived)"
    by blast
  have und: "map_of (attrs (classes w' C)) ?tn = Some (VStr ''UNDEFAULTED'')"
    if "?tn \<notin> fst ` set a - {name}"
  proof -
    have "map_of (attrs (classes w' C)) ?tn = map_of (attrs (classes w2 C)) ?tn"
      using r(3)[of ?tn] create_neq_type[of name] by metis
    also have "\<dots> = map_of (attrs (classes ?w1 C)) ?tn" using K tnot by blast
    finally show ?thesis using t1[OF that] by simp
  qed
  have dom: "args_name w name d \<in> dom (map_of (attrs (classes w' C)))"
    if "d \<in> set (offered w C dnp derived)" for d
  proof (cases "args_name w name d = ''create_'' @ name")
    case True
    show ?thesis
    proof (cases "class_getattr w2 C (''create_'' @ name) = None")
      case True
      from r(4)[OF this] \<open>args_name w name d = ''create_'' @ name\<close> show ?thesis by auto
    next
      case False
      with ac have "w' = w2" by (auto simp: add_creation_function_def)
      with K that show ?thesis by blast
    qed
  next
    case False
    from r(3)[OF False] K that show ?thesis by (metis domD domI)
  qed
  from a n g keys r(1) und dom show ?thesis by blast
qed












section \<open>Members of the class's own type and cycles of members\<close>

lemma add_implementations_error:
  "add_implementations name C dnp derived ki w = (Inl e, w') \<Longrightarrow> \<exists>msg. e = ValueError msg"
  by (induction name C dnp derived ki w rule: add_implementations.induct)
     (auto split: if_splits)

lemma registry_get_all_error:
  "registry_get_all w b = Inl e \<Longrightarrow> \<exists>msg. e = ValueError msg"
  by (auto simp: registry_get_all_def split: if_splits option.splits)

lemma own_annotations_Some:
  "name \<in> fst ` set (own_annotations w C) \<Longrightarrow>
     \<exists>a. annotations (classes w C) = Some a \<and> name \<in> fst ` set a"
  by (cases "annotations (classes w C)") (auto simp: own_annotations_def)

lemma process_member_error:
  assumes pm: "process_member name ty p C cf dnp ki w = (Inl e, w')"
    and n: "name \<in> fst ` set (own_annotations w C)"
  shows "\<exists>msg. e = ValueError msg"
proof -
  from own_annotations_Some[OF n] obtain a where
    a: "annotations (classes w C) = Some a" and na: "name \<in> fst ` set a" by blast
  show ?thesis
  proof (cases p)
    case False
    with pm a na show ?thesis
      by (auto simp: process_member_def Let_def split: if_splits prod.splits)
  next
    case True
    with pm a na show ?thesis
      by (auto simp: process_member_def Let_def
               split: if_splits prod.splits sum.splits
               dest: add_implementations_error registry_get_all_error)
  qed
qed

lemma process_member_cycle:
  assumes "annotations (classes w C) = Some a" "name \<in> fst ` set a"
    "name @ ARGS_SUFFIX \<notin> fst ` set a" "issubclass w ty C \<or> ty \<in> set dnp"
  shows "fst (process_member name ty False C cf dnp ki w)
           = Inl (ValueError ''Cannot process the type inside the class'')"
proof -
  let ?w0 = "upd_class w C (\<lambda>k. k\<lparr>annotations := Some (AList.delete name a)\<rparr>)"
  have oa: "own_annotations ?w0 C = AList.delete name a"
    by (simp add: own_annotations_def upd_class_def)
  have sub: "issubclass ?w0 ty C = issubclass w ty C"
    by (simp add: issubclass_def upd_class_def)
  from assms(3) have "name @ ARGS_SUFFIX \<notin> fst ` set (AList.delete name a)"
    by (simp add: delete_key_set)
  with assms oa sub show ?thesis
    by (simp add: process_member_def Let_def)
qed

lemma process_member_cycle_fails:
  assumes "issubclass w ty C \<or> ty \<in> set dnp"
  shows "\<exists>e w'. process_member name ty False C cf dnp ki w = (Inl e, w')"
proof (cases "annotations (classes w C)")
  case None
  then show ?thesis by (simp add: process_member_def)
next
  case (Some a)
  let ?w0 = "upd_class w C (\<lambda>k. k\<lparr>annotations := Some (AList.delete name a)\<rparr>)"
  have sub: "issubclass ?w0 ty C = issubclass w ty C"
    by (simp add: issubclass_def upd_class_def)
  with Some assms show ?thesis
    by (simp add: process_member_def Let_def)
qed

lemma process_member_keeps_keys:
  assumes pm: "process_member name ty p C cf dnp ki w = (Inr r, w')"
  shows "fst ` set (own_annotations w C) - {name} \<subseteq> fst ` set (own_annotations w' C)"
proof -
  obtain cf' ki' where r: "r = (cf', ki')" by (cases r)
  show ?thesis
  proof (cases p)
    case False
    with pm r have "process_member name ty False C cf dnp ki w = (Inr (cf', ki'), w')" by simp
    from process_member_fixed[OF this] obtain a where
      a: "annotations (classes w C) = Some a"
      and a': "annotations (classes w' C)
                 = Some (AList.delete name a @ [(name @ ARGS_SUFFIX, VClass DictConfig_c)])"
      by blast
    have "fst ` set (AList.delete name a @ [(name @ ARGS_SUFFIX, VClass DictConfig_c)])
            = insert (name @ ARGS_SUFFIX) (fst ` set a - {name})"
      using delete_key_set[of name a] by simp
    with a a' show ?thesis by (simp add: own_annotations_def) blast
  next
    case True
    with pm r have "process_member name ty True C cf dnp ki w = (Inr (cf', ki'), w')" by simp
    from process_member_pluggable[OF this] obtain a where
      a: "annotations (classes w C) = Some a"
      and k: "fst ` set (own_annotations w' C)
                = (fst ` set a - {name}) \<union> new_annotation_keys w name ty C dnp"
      by blast
    from a have "own_annotations w C = a" by (simp add: own_annotations_def)
    with k show ?thesis by blast
  qed
qed

lemma process_members_cycle:
  assumes "(m, t, False) \<in> set tp" "issubclass w t C \<or> t \<in> set dnp"
    "distinct (map fst tp)" "fst ` set tp \<subseteq> fst ` set (own_annotations w C)"
  shows "\<exists>msg w'. process_members C dnp tp acc w = (Inl (ValueError msg), w')"
  using assms
proof (induction tp arbitrary: acc w)
  case Nil
  then show ?case by simp
next
  case (Cons x rest)
  obtain name ty p where x: "x = (name, ty, p)" by (cases x)
  obtain cf ki pm where acc: "acc = (cf, ki, pm)" by (cases acc)
  obtain r w1 where pm1: "process_member name ty p C cf dnp ki w = (r, w1)"
    by (cases "process_member name ty p C cf dnp ki w")
  from Cons.prems(4) x have nk: "name \<in> fst ` set (own_annotations w C)" by simp
  show ?case
  proof (cases r)
    case (Inl e)
    from process_member_error[OF pm1[unfolded Inl] nk] obtain msg where "e = ValueError msg"
      by blast
    with pm1 Inl x acc show ?thesis by simp
  next
    case (Inr res)
    obtain cf' ki' where res: "res = (cf', ki')" by (cases res)
    have ne: "(m, t, False) \<noteq> (name, ty, p)"
    proof
      assume "(m, t, False) = (name, ty, p)"
      with process_member_cycle_fails[OF Cons.prems(2), of m cf ki] pm1 Inr
      show False by auto
    qed
    with Cons.prems(1) x have mem: "(m, t, False) \<in> set rest" by auto
    from frame_process_member[OF pm1] have "issubclass w1 t C = issubclass w t C"
      by (rule frame_issubclass)
    with Cons.prems(2) have cyc: "issubclass w1 t C \<or> t \<in> set dnp" by simp
    from Cons.prems(3) x have d: "distinct (map fst rest)" and nn: "name \<notin> fst ` set rest"
      by auto
    from Cons.prems(4) have "fst ` set rest \<subseteq> fst ` set (own_annotations w C)" by simp
    with process_member_keeps_keys[OF pm1[unfolded Inr]] nn
    have sub: "fst ` set rest \<subseteq> fst ` set (own_annotations w1 C)" by blast
    from Cons.IH[OF mem cyc d sub, of "(cf', ki', insert name pm)"]
    show ?thesis using pm1 Inr res x acc by simp
  qed
qed

lemma classify_name: "classify w x = Some y \<Longrightarrow> fst y = fst x"
  by (auto simp: classify_def split: val.splits if_splits)

lemma map_fst_map_filter_classify:
  "map fst (List.map_filter (classify w) a) = map fst (filter (\<lambda>x. classify w x \<noteq> None) a)"
  by (induction a) (auto simp: map_filter_simps classify_name split: option.splits)

lemma to_process_names:
  "fst ` set (to_process w C) \<subseteq> fst ` set (own_annotations w C)"
  "distinct (map fst (own_annotations w C)) \<Longrightarrow> distinct (map fst (to_process w C))"
proof -
  have "set (map fst (to_process w C)) \<subseteq> set (map fst (own_annotations w C))"
    by (cases "annotations (classes w C)")
       (auto simp: to_process_def own_annotations_def map_fst_map_filter_classify)
  then show "fst ` set (to_process w C) \<subseteq> fst ` set (own_annotations w C)" by simp
  show "distinct (map fst (own_annotations w C)) \<Longrightarrow> distinct (map fst (to_process w C))"
    by (cases "annotations (classes w C)")
       (auto simp: to_process_def own_annotations_def map_fst_map_filter_classify
                   distinct_map_filter)
qed

lemma expand_cycle:
  assumes ns: "\<not> is_actually_dataclass v D"
    and eb: "expand_bases n (rev (tl (take (length (mro (classes v D)) - 2) (mro (classes v D)))))
               dnp ([], [], {}) v = (Inr acc, v1)"
    and d: "distinct (map fst (own_annotations v1 D))"
    and mem: "(m, t, False) \<in> set (to_process v1 D)"
    and cyc: "issubclass v t D \<or> t \<in> set dnp"
  shows "\<exists>msg. fst (expand_args_fields (Suc n) D dnp v) = Inl (ValueError msg)"
proof -
  from frame_expand(2)[rule_format, OF eb] have "issubclass v1 t D = issubclass v t D"
    by (rule frame_issubclass)
  with cyc have cyc1: "issubclass v1 t D \<or> t \<in> set dnp" by simp
  from process_members_cycle[OF mem cyc1 to_process_names(2)[OF d] to_process_names(1), of acc]
  obtain msg w' where "process_members D dnp (to_process v1 D) acc v1 = (Inl (ValueError msg), w')"
    by blast
  with ns eb show ?thesis by simp
qed

lemma get_default_args_mid_expansion:
  assumes "is_configurable_class u (VClass c)" "c \<in> set dnp"
  shows "get_default_args k (VClass c) dnp u
           = (Inl (ValueError ''Internal recursion error. Need processed class, but cannot get it.''), u)"
  using assms by (simp add: ensure_processed_def class_of_def)

text \<open>
  Claim C6, as amended.  \<^verbatim>\<open>_process_member\<close> raises \<^verbatim>\<open>ValueError\<close> for a Fixed member whose
  declared type is the class being expanded, a subclass of it, or a class that is
  mid-expansion (in \<^verbatim>\<open>_do_not_process\<close>).  Hence the expansion of a class that is not yet a
  dataclass, whose bases have been expanded and whose own annotations (a dict, so with
  distinct keys) declare such a Fixed member, raises \<^verbatim>\<open>ValueError\<close> at every recursion
  limit: it does not recurse.  And \<^verbatim>\<open>get_default_args\<close> of a configurable class that is in
  \<^verbatim>\<open>_do_not_process\<close> raises \<^verbatim>\<open>ValueError\<close> and leaves the state as it is.  A cycle through
  nested members is not seen by the expansion of the outer class, whose generated default
  is a factory that is not called then; it is seen when the factory runs, through
  \<^verbatim>\<open>_do_not_process\<close>.
\<close>
theorem cycle_detection:
  "(annotations (classes w C) = Some a \<and> name \<in> fst ` set a
      \<and> name @ ARGS_SUFFIX \<notin> fst ` set a \<and> (issubclass w ty C \<or> ty \<in> set dnp)
    \<longrightarrow> fst (process_member name ty False C cf dnp ki w)
          = Inl (ValueError ''Cannot process the type inside the class''))
   \<and> (\<not> is_actually_dataclass v D
      \<and> expand_bases n (rev (tl (take (length (mro (classes v D)) - 2) (mro (classes v D)))))
           dnp' ([], [], {}) v = (Inr acc, v1)
      \<and> distinct (map fst (own_annotations v1 D))
      \<and> (m, t, False) \<in> set (to_process v1 D)
      \<and> (issubclass v t D \<or> t \<in> set dnp')
    \<longrightarrow> (\<exists>msg. fst (expand_args_fields (Suc n) D dnp' v) = Inl (ValueError msg)))
   \<and> (is_configurable_class u (VClass c) \<and> c \<in> set dnp''
    \<longrightarrow> get_default_args k (VClass c) dnp'' u
          = (Inl (ValueError ''Internal recursion error. Need processed class, but cannot get it.''), u))"
proof (intro conjI impI)
  assume "annotations (classes w C) = Some a \<and> name \<in> fst ` set a
      \<and> name @ ARGS_SUFFIX \<notin> fst ` set a \<and> (issubclass w ty C \<or> ty \<in> set dnp)"
  then show "fst (process_member name ty False C cf dnp ki w)
          = Inl (ValueError ''Cannot process the type inside the class'')"
    using process_member_cycle by blast
next
  assume "\<not> is_actually_dataclass v D
      \<and> expand_bases n (rev (tl (take (length (mro (classes v D)) - 2) (mro (classes v D)))))
           dnp' ([], [], {}) v = (Inr acc, v1)
      \<and> distinct (map fst (own_annotations v1 D))
      \<and> (m, t, False) \<in> set (to_process v1 D)
      \<and> (issubclass v t D \<or> t \<in> set dnp')"
  then show "\<exists>msg. fst (expand_args_fields (Suc n) D dnp' v) = Inl (ValueError msg)"
    using expand_cycle by blast
next
  assume "is_configurable_class u (VClass c) \<and> c \<in> set dnp''"
  then show "get_default_args k (VClass c) dnp'' u
          = (Inl (ValueError ''Internal recursion error. Need processed class, but cannot get it.''), u)"
    using get_default_args_mid_expansion by blast
qed

lemmas cyclic_defs = is_actually_dataclass_def to_process_def seal_def dataclass_def
  upd_class_def class_setattr_def set_annotation_def own_annotations_def warn_def
  issubclass_def is_base_class_def base_class_from_class_def registry_get_all_def
  registry_get_def dict_values_def dict_update_def mro_lookup_def class_getattr_def
  inherited_fields_def get_field_def is_field_def clashes_def merge_base_def
  process_member_def add_creation_function_def classify_def map_filter_simps
  TYPE_SUFFIX_def ARGS_SUFFIX_def plain_class_def builtin_classes_def
  class_P_def class_Q_def class_S_def class_R_def cyclic_def
  is_configurable_class_def Let_def

text \<open>
  The claim as written fails: \<^verbatim>\<open>P\<close> declares a Fixed member of type \<^verbatim>\<open>Q\<close> and \<^verbatim>\<open>Q\<close> one of
  type \<^verbatim>\<open>P\<close>, and the expansion of \<^verbatim>\<open>P\<close>, then that of \<^verbatim>\<open>Q\<close>, return without an error; \<^verbatim>\<open>S\<close>
  declares a Pluggable member of its own type and its expansion returns without an error.
\<close>

theorem transitive_cycle_counterexample:
  "to_process cyclic cls_P = [(''q'', cls_Q, False)]
   \<and> to_process cyclic cls_Q = [(''p'', cls_P, False)]
   \<and> fst (expand_args_fields (Suc 0) cls_P [] cyclic) = Inr ()
   \<and> fst (expand_args_fields (Suc 0) cls_Q [] (snd (expand_args_fields (Suc 0) cls_P [] cyclic)))
       = Inr ()
   \<and> to_process cyclic cls_S = [(''s'', cls_S, True)]
   \<and> fst (expand_args_fields (Suc 0) cls_S [] cyclic) = Inr ()"
  by (simp add: cyclic_defs)

text \<open>
  The member \<^verbatim>\<open>r: R\<close> of \<^verbatim>\<open>R\<close> is refused; the expansion of \<^verbatim>\<open>Q\<close> while \<^verbatim>\<open>P\<close> is mid-expansion
  is refused; \<^verbatim>\<open>get_default_args(P)\<close> while \<^verbatim>\<open>P\<close> is mid-expansion is refused.
\<close>

theorem cycle_detection_witness:
  "annotations (classes cyclic cls_R) = Some [(''r'', VClass cls_R)]
   \<and> issubclass cyclic cls_R cls_R
   \<and> fst (process_member ''r'' cls_R False cls_R [] [] [] cyclic)
       = Inl (ValueError ''Cannot process the type inside the class'')
   \<and> \<not> is_actually_dataclass cyclic cls_Q
   \<and> (''p'', cls_P, False) \<in> set (to_process cyclic cls_Q)
   \<and> (case fst (expand_args_fields (Suc 0) cls_Q [cls_P] cyclic) of
         Inl (ValueError msg) \<Rightarrow> True | _ \<Rightarrow> False)
   \<and> is_configurable_class cyclic (VClass cls_P)
   \<and> get_default_args 0 (VClass cls_P) [cls_P] cyclic
       = (Inl (ValueError ''Internal recursion error. Need processed class, but cannot get it.''),
          cyclic)"
proof -
  have a: "annotations (classes cyclic cls_R) = Some [(''r'', VClass cls_R)]"
    by (simp add: cyclic_defs)
  have s: "issubclass cyclic cls_R cls_R" by (simp add: cyclic_defs)
  have k: "''r'' \<in> fst ` set [(''r'', VClass cls_R)]"
    "''r'' @ ARGS_SUFFIX \<notin> fst ` set [(''r'', VClass cls_R)]"
    by (simp_all add: ARGS_SUFFIX_def)
  from cycle_detection[where w = cyclic and C = cls_R and a = "[(''r'', VClass cls_R)]"
         and name = "''r''" and ty = cls_R and dnp = "[]" and cf = "[]" and ki = "[]"] a s k
  have 3: "fst (process_member ''r'' cls_R False cls_R [] [] [] cyclic)
       = Inl (ValueError ''Cannot process the type inside the class'')"
    by blast
  have ns: "\<not> is_actually_dataclass cyclic cls_Q" by (simp add: cyclic_defs)
  have eb: "expand_bases 0 (rev (tl (take (length (mro (classes cyclic cls_Q)) - 2)
                                   (mro (classes cyclic cls_Q)))))
              [cls_P] ([], [], {}) cyclic = (Inr ([], [], {}), cyclic)"
    by (simp add: cyclic_defs)
  have d: "distinct (map fst (own_annotations cyclic cls_Q))" by (simp add: cyclic_defs)
  have mem: "(''p'', cls_P, False) \<in> set (to_process cyclic cls_Q)" by (simp add: cyclic_defs)
  have "cls_P \<in> set [cls_P]" by simp
  with cycle_detection[where v = cyclic and D = cls_Q and n = 0 and dnp' = "[cls_P]"
         and acc = "([], [], {})" and ?v1.0 = cyclic and m = "''p''" and t = cls_P] ns eb d mem
  obtain msg where "fst (expand_args_fields (Suc 0) cls_Q [cls_P] cyclic) = Inl (ValueError msg)"
    by blast
  then have 6: "(case fst (expand_args_fields (Suc 0) cls_Q [cls_P] cyclic) of
         Inl (ValueError msg) \<Rightarrow> True | _ \<Rightarrow> False)"
    by simp
  have c: "is_configurable_class cyclic (VClass cls_P)" by (simp add: cyclic_defs)
  have "cls_P \<in> set [cls_P]" by simp
  with cycle_detection[where u = cyclic and c = cls_P and dnp'' = "[cls_P]" and k = 0] c
  have 8: "get_default_args 0 (VClass cls_P) [cls_P] cyclic
       = (Inl (ValueError ''Internal recursion error. Need processed class, but cannot get it.''),
          cyclic)"
    by blast
  from a s 3 ns mem 6 c 8 show ?thesis by (intro conjI)
qed

text \<open>
  Where the cycle of \<^verbatim>\<open>P\<close> and \<^verbatim>\<open>Q\<close> shows.  When both classes have been expanded,
  \<^verbatim>\<open>get_default_args(P)\<close> calls the factory of \<^verbatim>\<open>q_args\<close>, which calls that of \<^verbatim>\<open>p_args\<close>, and
  so on: whatever the recursion limit, the call ends in \<^verbatim>\<open>RecursionError\<close>.  When neither
  has been expanded, \<^verbatim>\<open>get_default_args(P)\<close> expands \<^verbatim>\<open>Q\<close> while \<^verbatim>\<open>P\<close> is in
  \<^verbatim>\<open>_do_not_process\<close>, and that raises \<^verbatim>\<open>ValueError\<close>.
\<close>

lemma both_expanded_classes:
  "classes both_expanded cls_P =
     class_P\<lparr>annotations := Some [(''q_args'', VClass DictConfig_c)],
             attrs := [(''create_q'', VCreate ''q'' cls_Q False), (''__init__'', VInit cls_P)],
             cls_creation_functions := Some [''create_q''],
             cls_processed_members := Some {''q''},
             cls_known_implementations := Some [],
             dataclass_fields :=
               Some [(''q_args'', VClass DictConfig_c, Some (VField (VClass cls_Q) [cls_P]))]\<rparr>"
  "classes both_expanded cls_Q =
     class_Q\<lparr>annotations := Some [(''p_args'', VClass DictConfig_c)],
             attrs := [(''create_p'', VCreate ''p'' cls_P False), (''__init__'', VInit cls_Q)],
             cls_creation_functions := Some [''create_p''],
             cls_processed_members := Some {''p''},
             cls_known_implementations := Some [],
             dataclass_fields :=
               Some [(''p_args'', VClass DictConfig_c, Some (VField (VClass cls_P) [cls_Q]))]\<rparr>"
  "classes both_expanded Configurable = builtin_classes Configurable"
  "classes both_expanded ReplaceableBase = builtin_classes ReplaceableBase"
  "classes both_expanded object_c = builtin_classes object_c"
  by (simp_all add: both_expanded_def cyclic_defs)

lemma both_expanded_facts:
  "is_configurable_class both_expanded (VClass cls_P)"
  "is_configurable_class both_expanded (VClass cls_Q)"
  "is_actually_dataclass both_expanded cls_P"
  "is_actually_dataclass both_expanded cls_Q"
  "fields_of both_expanded (VClass cls_P)
     = Some [(''q_args'', VClass DictConfig_c, Some (VField (VClass cls_Q) [cls_P]))]"
  "fields_of both_expanded (VClass cls_Q)
     = Some [(''p_args'', VClass DictConfig_c, Some (VField (VClass cls_P) [cls_Q]))]"
  by (simp_all add: both_expanded_classes is_configurable_class_def issubclass_def
        is_actually_dataclass_def fields_of_def class_of_def mro_lookup_def
        class_P_def class_Q_def plain_class_def)

lemma both_expanded_unbounded:
  "get_default_args n (VClass cls_P) [cls_Q] both_expanded = (Inl RecursionError, both_expanded)
   \<and> get_default_args n (VClass cls_Q) [cls_P] both_expanded = (Inl RecursionError, both_expanded)"
proof (induction n)
  case 0
  show ?case
    by (simp add: both_expanded_facts ensure_processed_def class_of_def expand_sealed)
next
  case (Suc n)
  then show ?case
    by (simp add: both_expanded_facts ensure_processed_def class_of_def expand_sealed)
qed

lemma cyclic_extraction_recursion:
  "get_default_args n (VClass cls_P) [] both_expanded = (Inl RecursionError, both_expanded)"
proof (cases n)
  case 0
  then show ?thesis
    by (simp add: both_expanded_facts ensure_processed_def class_of_def expand_sealed)
next
  case (Suc k)
  with both_expanded_unbounded[of k] show ?thesis
    by (simp add: both_expanded_facts ensure_processed_def class_of_def expand_sealed)
qed

lemma cyclic_extraction_detected:
  "fst (get_default_args (Suc (Suc n)) (VClass cls_P) [] cyclic)
     = Inl (ValueError ''Cannot process the type inside the class'')"
  by (simp add: cyclic_defs ensure_processed_def fields_of_def class_of_def)

section \<open>Extraction creates its tree and changes no object\<close>

lemma heap_step_refl: "heap_step s s"
  by (simp add: heap_step_def)

lemma heap_step_trans: "heap_step s s1 \<Longrightarrow> heap_step s1 s2 \<Longrightarrow> heap_step s s2"
  by (auto simp: heap_step_def)

lemma alloc_step:
  assumes "alloc obj s = (y, s')"
  shows "heap_step s s'" "y = Ptr (next_addr s)" "heap s' (next_addr s) = obj"
    "next_addr s' = Suc (next_addr s)"
  using assms by (auto simp: alloc_def heap_step_def)

lemma fresh_tree_cong:
  assumes "fresh_tree k n h y" "\<forall>a < n. h' a = h a"
  shows "fresh_tree k n h' y"
  using assms
proof (induction rule: fresh_tree.induct)
  case (lit v)
  show ?case by (rule fresh_tree.lit)
next
  case (node a)
  from node(2,4) have "h' a = h a" by simp
  with node show ?case by (intro fresh_tree.node) auto
qed

lemma fresh_tree_widen:
  assumes "fresh_tree k n h y" "k' \<le> k" "n \<le> n'"
  shows "fresh_tree k' n' h y"
  using assms
proof (induction rule: fresh_tree.induct)
  case (lit v)
  show ?case by (rule fresh_tree.lit)
next
  case (node a)
  then show ?case by (intro fresh_tree.node) auto
qed

lemma fresh_tree_step:
  assumes f: "fresh_tree k (next_addr s) (heap s) y" and st: "heap_step s s'"
  shows "fresh_tree k (next_addr s') (heap s') y"
proof -
  from st have "\<forall>a < next_addr s. heap s' a = heap s a" by (simp add: heap_step_def)
  from fresh_tree_cong[OF f this] have "fresh_tree k (next_addr s) (heap s') y" .
  moreover from st have "next_addr s \<le> next_addr s'" by (simp add: heap_step_def)
  ultimately show ?thesis by (rule fresh_tree_widen[OF _ le_refl])
qed

lemma node_fresh:
  assumes st: "heap_step s s1"
    and ch: "\<forall>x \<in> set ys. fresh_tree (next_addr s) (next_addr s1) (heap s1) x"
    and al: "alloc obj s1 = (y, s2)"
    and refs: "set (refs_of obj) \<subseteq> set ys"
  shows "heap_step s s2" "fresh_tree (next_addr s) (next_addr s2) (heap s2) y"
    "\<exists>b. y = Ptr b \<and> next_addr s \<le> b"
proof -
  note a = alloc_step[OF al]
  show "heap_step s s2" by (rule heap_step_trans[OF st a(1)])
  from st have le: "next_addr s \<le> next_addr s1" by (simp add: heap_step_def)
  with a(2) show "\<exists>b. y = Ptr b \<and> next_addr s \<le> b" by simp
  have "\<forall>x \<in> set (refs_of (heap s2 (next_addr s1))).
          fresh_tree (next_addr s) (next_addr s2) (heap s2) x"
  proof
    fix x assume "x \<in> set (refs_of (heap s2 (next_addr s1)))"
    with a(3) refs have "x \<in> set ys" by auto
    with ch have "fresh_tree (next_addr s) (next_addr s1) (heap s1) x" by blast
    then show "fresh_tree (next_addr s) (next_addr s2) (heap s2) x"
      by (rule fresh_tree_step[OF _ a(1)])
  qed
  with le a(2,4) show "fresh_tree (next_addr s) (next_addr s2) (heap s2) y"
    by (auto intro: fresh_tree.node)
qed

lemma refs_of_simps:
  "set (refs_of (HList ys)) \<subseteq> set ys"
  "set (refs_of (HListConfig ys)) \<subseteq> set ys"
  "set (refs_of (HDict (zip ks ys))) \<subseteq> set ys"
  "set (refs_of (HDictConfig (zip ks ys))) \<subseteq> set ys"
  by (auto simp: refs_of_def dest: set_zip_rightD)

lemma deepcopy_step:
  "\<forall>r s'. deepcopy n x s = (r, s') \<longrightarrow> heap_step s s'"
  "\<forall>r s'. deepcopy_all n xs s = (r, s') \<longrightarrow> heap_step s s'"
proof (induction n x s and n xs s rule: deepcopy_deepcopy_all.induct)
  case (1 n v s)
  show ?case by (simp add: heap_step_refl)
next
  case (2 a s)
  show ?case by (simp add: heap_step_refl)
next
  case (3 n a s)
  show ?case
  proof (intro allI impI)
    fix r s' assume d: "deepcopy (Suc n) (Ptr a) s = (r, s')"
    show "heap_step s s'"
    proof (cases "heap s a")
      case (HFunc params)
      with d show ?thesis by (simp add: heap_step_refl)
    next
      case (HList xs)
      obtain r1 s1 where c: "deepcopy_all n xs s = (r1, s1)" by (cases "deepcopy_all n xs s")
      from 3(1)[OF HList] c have st: "heap_step s s1" by blast
      show ?thesis
      proof (cases r1)
        case (Inl e)
        with d HList c st show ?thesis by simp
      next
        case (Inr ys)
        obtain y s2 where al: "alloc (HList ys) s1 = (y, s2)" by (cases "alloc (HList ys) s1")
        with d HList c Inr have "s' = s2" by simp
        with heap_step_trans[OF st alloc_step(1)[OF al]] show ?thesis by simp
      qed
    next
      case (HListConfig xs)
      obtain r1 s1 where c: "deepcopy_all n xs s = (r1, s1)" by (cases "deepcopy_all n xs s")
      from 3(3)[OF HListConfig] c have st: "heap_step s s1" by blast
      show ?thesis
      proof (cases r1)
        case (Inl e)
        with d HListConfig c st show ?thesis by simp
      next
        case (Inr ys)
        obtain y s2 where al: "alloc (HListConfig ys) s1 = (y, s2)"
          by (cases "alloc (HListConfig ys) s1")
        with d HListConfig c Inr have "s' = s2" by simp
        with heap_step_trans[OF st alloc_step(1)[OF al]] show ?thesis by simp
      qed
    next
      case (HDict xs)
      obtain r1 s1 where c: "deepcopy_all n (map snd xs) s = (r1, s1)"
        by (cases "deepcopy_all n (map snd xs) s")
      from 3(2)[OF HDict] c have st: "heap_step s s1" by blast
      show ?thesis
      proof (cases r1)
        case (Inl e)
        with d HDict c st show ?thesis by simp
      next
        case (Inr ys)
        obtain y s2 where al: "alloc (HDict (zip (map fst xs) ys)) s1 = (y, s2)"
          by (cases "alloc (HDict (zip (map fst xs) ys)) s1")
        with d HDict c Inr have "s' = s2" by simp
        with heap_step_trans[OF st alloc_step(1)[OF al]] show ?thesis by simp
      qed
    next
      case (HDictConfig xs)
      obtain r1 s1 where c: "deepcopy_all n (map snd xs) s = (r1, s1)"
        by (cases "deepcopy_all n (map snd xs) s")
      from 3(4)[OF HDictConfig] c have st: "heap_step s s1" by blast
      show ?thesis
      proof (cases r1)
        case (Inl e)
        with d HDictConfig c st show ?thesis by simp
      next
        case (Inr ys)
        obtain y s2 where al: "alloc (HDictConfig (zip (map fst xs) ys)) s1 = (y, s2)"
          by (cases "alloc (HDictConfig (zip (map fst xs) ys)) s1")
        with d HDictConfig c Inr have "s' = s2" by simp
        with heap_step_trans[OF st alloc_step(1)[OF al]] show ?thesis by simp
      qed
    qed
  qed
next
  case (4 n s)
  show ?case by (simp add: heap_step_refl)
next
  case (5 n x xs s)
  show ?case
  proof (intro allI impI)
    fix r s' assume d: "deepcopy_all n (x # xs) s = (r, s')"
    obtain r1 s1 where c: "deepcopy n x s = (r1, s1)" by (cases "deepcopy n x s")
    from 5(1) c have st: "heap_step s s1" by blast
    show "heap_step s s'"
    proof (cases r1)
      case (Inl e)
      with d c st show ?thesis by simp
    next
      case (Inr y)
      obtain r2 s2 where c2: "deepcopy_all n xs s1 = (r2, s2)" by (cases "deepcopy_all n xs s1")
      from 5(2)[OF c[symmetric] Inr] c2 have st2: "heap_step s1 s2" by blast
      from d c Inr c2 have "s' = s2" by (auto split: sum.splits)
      with heap_step_trans[OF st st2] show ?thesis by simp
    qed
  qed
qed

lemma built_refl: "built s s []"
  by (simp add: built_def heap_step_refl)

lemma built_lit: "built s s [Lit v]"
  by (simp add: built_def heap_step_refl fresh_tree.lit)

lemma built_heap_step: "built s s' ys \<Longrightarrow> heap_step s s'"
  by (simp add: built_def)

lemma built_alloc:
  assumes b: "built s s1 ys" and al: "alloc obj s1 = (y, s2)"
    and refs: "set (refs_of obj) \<subseteq> set ys"
  shows "built s s2 [y]" "\<exists>b. y = Ptr b \<and> next_addr s \<le> b"
proof -
  from b have st: "heap_step s s1"
    and ch: "\<forall>x \<in> set ys. fresh_tree (next_addr s) (next_addr s1) (heap s1) x"
    by (simp_all add: built_def)
  from node_fresh[OF st ch al refs] show "built s s2 [y]" "\<exists>b. y = Ptr b \<and> next_addr s \<le> b"
    by (simp_all add: built_def)
qed

lemma built_cons:
  assumes 1: "built s s1 [y]" and 2: "built s1 s2 ys"
  shows "built s s2 (y # ys)"
proof -
  from 1 have st1: "heap_step s s1"
    and f1: "fresh_tree (next_addr s) (next_addr s1) (heap s1) y" by (simp_all add: built_def)
  from 2 have st2: "heap_step s1 s2"
    and f2: "\<forall>x \<in> set ys. fresh_tree (next_addr s1) (next_addr s2) (heap s2) x"
    by (simp_all add: built_def)
  from st1 have le: "next_addr s \<le> next_addr s1" by (simp add: heap_step_def)
  have "fresh_tree (next_addr s) (next_addr s2) (heap s2) y"
    by (rule fresh_tree_step[OF f1 st2])
  moreover have "\<forall>x \<in> set ys. fresh_tree (next_addr s) (next_addr s2) (heap s2) x"
    using f2 le by (auto intro: fresh_tree_widen)
  ultimately show ?thesis using heap_step_trans[OF st1 st2] by (simp add: built_def)
qed

lemma built_step:
  assumes 1: "heap_step s s1" and 2: "built s1 s2 ys"
  shows "built s s2 ys"
proof -
  from 2 have st2: "heap_step s1 s2"
    and f2: "\<forall>x \<in> set ys. fresh_tree (next_addr s1) (next_addr s2) (heap s2) x"
    by (simp_all add: built_def)
  from 1 have le: "next_addr s \<le> next_addr s1" by (simp add: heap_step_def)
  have "\<forall>x \<in> set ys. fresh_tree (next_addr s) (next_addr s2) (heap s2) x"
    using f2 le by (auto intro: fresh_tree_widen)
  then show ?thesis using heap_step_trans[OF 1 st2] by (simp add: built_def)
qed

lemma materialise_built:
  "\<forall>r s'. materialise n v s = (r, s') \<longrightarrow>
      heap_step s s' \<and> (\<forall>y. r = Inr y \<longrightarrow> built s s' [y])"
  "\<forall>r s'. materialise_all n vs s = (r, s') \<longrightarrow>
      heap_step s s' \<and> (\<forall>ys. r = Inr ys \<longrightarrow> built s s' ys)"
proof (induction n v s and n vs s rule: materialise_materialise_all.induct)
  case (1 n v s)
  show ?case
  proof (intro allI impI)
    fix r s' assume m: "materialise n v s = (r, s')"
    show "heap_step s s' \<and> (\<forall>y. r = Inr y \<longrightarrow> built s s' [y])"
    proof (cases "supported_value v")
      case False
      with m show ?thesis by (auto simp: heap_step_refl)
    next
      case True
      note sup = this
      show ?thesis
      proof (cases "(\<exists>d. v = VDict d) \<or> (\<exists>xs. v = VList xs)")
        case False
        with m sup have "r = Inr (Lit v)" "s' = s" by (cases v; simp)+
        then show ?thesis by (simp add: heap_step_refl built_lit)
      next
        case True
        show ?thesis
        proof (cases n)
          case 0
          with m sup True show ?thesis by (auto simp: heap_step_refl)
        next
          case (Suc k)
          from True show ?thesis
          proof
            assume "\<exists>d. v = VDict d"
            then obtain d where v: "v = VDict d" by blast
            obtain r1 s1 where c: "materialise_all k (map snd d) s = (r1, s1)"
              by (cases "materialise_all k (map snd d) s")
            from 1(1)[OF _ v Suc] sup c
            have ih: "heap_step s s1 \<and> (\<forall>ys. r1 = Inr ys \<longrightarrow> built s s1 ys)" by blast
            show ?thesis
            proof (cases r1)
              case (Inl e)
              with m sup v Suc c ih show ?thesis by auto
            next
              case (Inr ys)
              obtain y s2 where al: "alloc (HDictConfig (zip (map fst d) ys)) s1 = (y, s2)"
                by (cases "alloc (HDictConfig (zip (map fst d) ys)) s1")
              from ih Inr have b: "built s s1 ys" by blast
              from built_alloc(1)[OF b al refs_of_simps(4)] have "built s s2 [y]" .
              moreover from m sup v Suc c Inr al have "r = Inr y" "s' = s2" by simp_all
              ultimately show ?thesis by (simp add: built_heap_step)
            qed
          next
            assume "\<exists>xs. v = VList xs"
            then obtain xs where v: "v = VList xs" by blast
            obtain r1 s1 where c: "materialise_all k xs s = (r1, s1)"
              by (cases "materialise_all k xs s")
            from 1(2)[OF _ v Suc] sup c
            have ih: "heap_step s s1 \<and> (\<forall>ys. r1 = Inr ys \<longrightarrow> built s s1 ys)" by blast
            show ?thesis
            proof (cases r1)
              case (Inl e)
              with m sup v Suc c ih show ?thesis by auto
            next
              case (Inr ys)
              obtain y s2 where al: "alloc (HListConfig ys) s1 = (y, s2)"
                by (cases "alloc (HListConfig ys) s1")
              from ih Inr have b: "built s s1 ys" by blast
              from built_alloc(1)[OF b al refs_of_simps(2)] have "built s s2 [y]" .
              moreover from m sup v Suc c Inr al have "r = Inr y" "s' = s2" by simp_all
              ultimately show ?thesis by (simp add: built_heap_step)
            qed
          qed
        qed
      qed
    qed
  qed
next
  case (2 n s)
  show ?case by (simp add: heap_step_refl built_refl)
next
  case (3 n x xs s)
  show ?case
  proof (intro allI impI)
    fix r s' assume m: "materialise_all n (x # xs) s = (r, s')"
    obtain r1 s1 where c: "materialise n x s = (r1, s1)" by (cases "materialise n x s")
    from 3(1) c have ih1: "heap_step s s1 \<and> (\<forall>y. r1 = Inr y \<longrightarrow> built s s1 [y])" by blast
    show "heap_step s s' \<and> (\<forall>ys. r = Inr ys \<longrightarrow> built s s' ys)"
    proof (cases r1)
      case (Inl e)
      with m c ih1 show ?thesis by (auto simp del: materialise.simps)
    next
      case (Inr y)
      obtain r2 s2 where c2: "materialise_all n xs s1 = (r2, s2)"
        by (cases "materialise_all n xs s1")
      from 3(2)[OF c[symmetric] Inr] c2
      have ih2: "heap_step s1 s2 \<and> (\<forall>ys. r2 = Inr ys \<longrightarrow> built s1 s2 ys)" by blast
      from ih1 Inr have b1: "built s s1 [y]" by blast
      show ?thesis
      proof (cases r2)
        case (Inl e)
        with m c Inr c2 have "r = Inl e" "s' = s2" by (simp_all del: materialise.simps)
        with ih1 ih2 show ?thesis by (auto intro: heap_step_trans)
      next
        case (Inr ys)
        with ih2 have "built s1 s2 ys" by blast
        from built_cons[OF b1 this] have "built s s2 (y # ys)" .
        moreover from m c \<open>r1 = Inr y\<close> c2 Inr have "r = Inr (y # ys)" "s' = s2"
          by (simp_all del: materialise.simps)
        ultimately show ?thesis by (simp add: built_heap_step)
      qed
    qed
  qed
qed

lemma wrap_built:
  "\<forall>r s'. wrap n x s = (r, s') \<longrightarrow>
      heap_step s s' \<and> (\<forall>y. r = Inr y \<longrightarrow> built s s' [y])"
  "\<forall>r s'. wrap_all n xs s = (r, s') \<longrightarrow>
      heap_step s s' \<and> (\<forall>ys. r = Inr ys \<longrightarrow> built s s' ys)"
proof (induction n x s and n xs s rule: wrap_wrap_all.induct)
  case (1 n v s)
  show ?case using materialise_built(1)[of n v s] by (simp del: materialise.simps)
next
  case (2 a s)
  show ?case by (simp add: heap_step_refl)
next
  case (3 n a s)
  show ?case
  proof (intro allI impI)
    fix r s' assume d: "wrap (Suc n) (Ptr a) s = (r, s')"
    show "heap_step s s' \<and> (\<forall>y. r = Inr y \<longrightarrow> built s s' [y])"
    proof (cases "heap s a")
      case (HFunc params)
      with d show ?thesis by (auto simp: heap_step_refl)
    next
      case (HList xs)
      obtain r1 s1 where c: "wrap_all n xs s = (r1, s1)" by (cases "wrap_all n xs s")
      from 3(1)[OF HList] c
      have ih: "heap_step s s1 \<and> (\<forall>ys. r1 = Inr ys \<longrightarrow> built s s1 ys)" by blast
      show ?thesis
      proof (cases r1)
        case (Inl e)
        with d HList c ih show ?thesis by auto
      next
        case (Inr ys)
        obtain y s2 where al: "alloc (HListConfig ys) s1 = (y, s2)"
          by (cases "alloc (HListConfig ys) s1")
        from ih Inr have b: "built s s1 ys" by blast
        from built_alloc(1)[OF b al refs_of_simps(2)] have "built s s2 [y]" .
        moreover from d HList c Inr al have "r = Inr y" "s' = s2" by simp_all
        ultimately show ?thesis by (simp add: built_heap_step)
      qed
    next
      case (HListConfig xs)
      obtain r1 s1 where c: "wrap_all n xs s = (r1, s1)" by (cases "wrap_all n xs s")
      from 3(3)[OF HListConfig] c
      have ih: "heap_step s s1 \<and> (\<forall>ys. r1 = Inr ys \<longrightarrow> built s s1 ys)" by blast
      show ?thesis
      proof (cases r1)
        case (Inl e)
        with d HListConfig c ih show ?thesis by auto
      next
        case (Inr ys)
        obtain y s2 where al: "alloc (HListConfig ys) s1 = (y, s2)"
          by (cases "alloc (HListConfig ys) s1")
        from ih Inr have b: "built s s1 ys" by blast
        from built_alloc(1)[OF b al refs_of_simps(2)] have "built s s2 [y]" .
        moreover from d HListConfig c Inr al have "r = Inr y" "s' = s2" by simp_all
        ultimately show ?thesis by (simp add: built_heap_step)
      qed
    next
      case (HDict xs)
      obtain r1 s1 where c: "wrap_all n (map snd xs) s = (r1, s1)"
        by (cases "wrap_all n (map snd xs) s")
      from 3(2)[OF HDict] c
      have ih: "heap_step s s1 \<and> (\<forall>ys. r1 = Inr ys \<longrightarrow> built s s1 ys)" by blast
      show ?thesis
      proof (cases r1)
        case (Inl e)
        with d HDict c ih show ?thesis by auto
      next
        case (Inr ys)
        obtain y s2 where al: "alloc (HDictConfig (zip (map fst xs) ys)) s1 = (y, s2)"
          by (cases "alloc (HDictConfig (zip (map fst xs) ys)) s1")
        from ih Inr have b: "built s s1 ys" by blast
        from built_alloc(1)[OF b al refs_of_simps(4)] have "built s s2 [y]" .
        moreover from d HDict c Inr al have "r = Inr y" "s' = s2" by simp_all
        ultimately show ?thesis by (simp add: built_heap_step)
      qed
    next
      case (HDictConfig xs)
      obtain r1 s1 where c: "wrap_all n (map snd xs) s = (r1, s1)"
        by (cases "wrap_all n (map snd xs) s")
      from 3(4)[OF HDictConfig] c
      have ih: "heap_step s s1 \<and> (\<forall>ys. r1 = Inr ys \<longrightarrow> built s s1 ys)" by blast
      show ?thesis
      proof (cases r1)
        case (Inl e)
        with d HDictConfig c ih show ?thesis by auto
      next
        case (Inr ys)
        obtain y s2 where al: "alloc (HDictConfig (zip (map fst xs) ys)) s1 = (y, s2)"
          by (cases "alloc (HDictConfig (zip (map fst xs) ys)) s1")
        from ih Inr have b: "built s s1 ys" by blast
        from built_alloc(1)[OF b al refs_of_simps(4)] have "built s s2 [y]" .
        moreover from d HDictConfig c Inr al have "r = Inr y" "s' = s2" by simp_all
        ultimately show ?thesis by (simp add: built_heap_step)
      qed
    qed
  qed
next
  case (4 n s)
  show ?case by (simp add: heap_step_refl built_refl)
next
  case (5 n x xs s)
  show ?case
  proof (intro allI impI)
    fix r s' assume m: "wrap_all n (x # xs) s = (r, s')"
    obtain r1 s1 where c: "wrap n x s = (r1, s1)" by (cases "wrap n x s")
    from 5(1) c have ih1: "heap_step s s1 \<and> (\<forall>y. r1 = Inr y \<longrightarrow> built s s1 [y])" by blast
    show "heap_step s s' \<and> (\<forall>ys. r = Inr ys \<longrightarrow> built s s' ys)"
    proof (cases r1)
      case (Inl e)
      with m c ih1 show ?thesis by auto
    next
      case (Inr y)
      obtain r2 s2 where c2: "wrap_all n xs s1 = (r2, s2)" by (cases "wrap_all n xs s1")
      from 5(2)[OF c[symmetric] Inr] c2
      have ih2: "heap_step s1 s2 \<and> (\<forall>ys. r2 = Inr ys \<longrightarrow> built s1 s2 ys)" by blast
      from ih1 Inr have b1: "built s s1 [y]" by blast
      show ?thesis
      proof (cases r2)
        case (Inl e)
        with m c Inr c2 have "r = Inl e" "s' = s2" by simp_all
        with ih1 ih2 show ?thesis by (auto intro: heap_step_trans)
      next
        case (Inr ys)
        with ih2 have "built s1 s2 ys" by blast
        from built_cons[OF b1 this] have "built s s2 (y # ys)" .
        moreover from m c \<open>r1 = Inr y\<close> c2 Inr have "r = Inr (y # ys)" "s' = s2" by simp_all
        ultimately show ?thesis by (simp add: built_heap_step)
      qed
    qed
  qed
qed

lemma copy_defaults_step:
  "copy_defaults n params s = (r, s') \<Longrightarrow> heap_step s s'"
proof (induction n params s arbitrary: r s' rule: copy_defaults.induct)
  case (1 n s)
  then show ?case by (simp add: heap_step_refl)
next
  case (2 n pname params s)
  then show ?case by simp
next
  case (3 n pname x params s)
  obtain r1 s1 where c: "deepcopy n x s = (r1, s1)" by (cases "deepcopy n x s")
  from deepcopy_step(1) c have st: "heap_step s s1" by blast
  show ?case
  proof (cases r1)
    case (Inl e)
    with 3(2) c st show ?thesis by auto
  next
    case (Inr y)
    obtain r2 s2 where c2: "copy_defaults n params s1 = (r2, s2)"
      by (cases "copy_defaults n params s1")
    from 3(1)[OF c[symmetric] Inr c2] have st2: "heap_step s1 s2" .
    from 3(2) c Inr c2 have "s' = s2" by (auto split: sum.splits)
    with heap_step_trans[OF st st2] show ?thesis by simp
  qed
qed

lemma new_DictConfig_built:
  assumes "new_DictConfig n kwargs s = (r, s')"
  shows "heap_step s s'"
    and "r = Inr y \<Longrightarrow> built s s' [y] \<and> (\<exists>b. y = Ptr b \<and> next_addr s \<le> b)"
proof -
  obtain r1 s1 where c: "wrap_all n (map snd kwargs) s = (r1, s1)"
    by (cases "wrap_all n (map snd kwargs) s")
  from wrap_built(2) c
  have ih: "heap_step s s1 \<and> (\<forall>ys. r1 = Inr ys \<longrightarrow> built s s1 ys)" by blast
  have "heap_step s s' \<and> (\<forall>y. r = Inr y \<longrightarrow> built s s' [y] \<and> (\<exists>b. y = Ptr b \<and> next_addr s \<le> b))"
  proof (cases r1)
    case (Inl e)
    with assms c ih show ?thesis by (auto simp: new_DictConfig_def)
  next
    case (Inr ys)
    obtain z s2 where al: "alloc (HDictConfig (zip (map fst kwargs) ys)) s1 = (z, s2)"
      by (cases "alloc (HDictConfig (zip (map fst kwargs) ys)) s1")
    from ih Inr have b: "built s s1 ys" by blast
    note ba = built_alloc[OF b al refs_of_simps(4)]
    moreover from assms c Inr al have "r = Inr z" "s' = s2" by (simp_all add: new_DictConfig_def)
    ultimately show ?thesis by (simp add: built_heap_step)
  qed
  then show "heap_step s s'"
    and "r = Inr y \<Longrightarrow> built s s' [y] \<and> (\<exists>b. y = Ptr b \<and> next_addr s \<le> b)" by blast+
qed

lemma materialise_VDict:
  assumes "materialise n (VDict d) s = (Inr y, s')"
  shows "\<exists>b. y = Ptr b \<and> next_addr s \<le> b"
proof -
  from assms obtain m where n: "n = Suc m"
    by (cases n) (auto simp: supported_value_def)
  obtain r1 s1 where c: "materialise_all m (map snd d) s = (r1, s1)"
    by (cases "materialise_all m (map snd d) s")
  from materialise_built(2) c have st: "heap_step s s1" by blast
  from assms n c obtain ys where r1: "r1 = Inr ys"
    by (cases r1) (auto simp: supported_value_def)
  obtain z s2 where al: "alloc (HDictConfig (zip (map fst d) ys)) s1 = (z, s2)"
    by (cases "alloc (HDictConfig (zip (map fst d) ys)) s1")
  from assms n c r1 al have "y = z" by (simp add: supported_value_def)
  with alloc_step(2)[OF al] st show ?thesis by (simp add: heap_step_def)
qed

lemma pop_after_alloc:
  assumes "alloc (HDictConfig items) s = (out, s1)"
  shows "alloc (HDictConfig
           (filter (\<lambda>item. case fst item of SKey field \<Rightarrow> field \<notin> exclude | OKey _ \<Rightarrow> True) items)) s
         = (out, pop_fields exclude out s1)"
  using assms by (auto simp: alloc_def pop_fields_def)

lemma signature_defaults_VDict:
  "signature_defaults w C = Inr v \<Longrightarrow> \<exists>d. v = VDict d"
  by (auto simp: signature_defaults_def defaulted_kwargs_def split: if_splits sum.splits)

lemma store_step_refl: "store_step s s"
  by (simp add: store_step_def frame_refl)

lemma store_step_trans: "store_step s s1 \<Longrightarrow> store_step s1 s2 \<Longrightarrow> store_step s s2"
  unfolding store_step_def by (auto intro: frame_um_trans)

lemma heap_store_step: "heap_step s s' \<Longrightarrow> store_step s s'"
  by (simp add: heap_step_def store_step_def frame_refl)

lemma built_made: "built s s' ys \<Longrightarrow> made s s' ys"
  by (simp add: built_def made_def heap_store_step)

lemma made_store_step: "made s s' ys \<Longrightarrow> store_step s s'"
  by (simp add: made_def)

lemma fresh_tree_store_step:
  assumes f: "fresh_tree k (next_addr s) (heap s) y" and st: "store_step s s'"
  shows "fresh_tree k (next_addr s') (heap s') y"
proof -
  from st have "\<forall>a < next_addr s. heap s' a = heap s a" by (simp add: store_step_def)
  from fresh_tree_cong[OF f this] have "fresh_tree k (next_addr s) (heap s') y" .
  moreover from st have "next_addr s \<le> next_addr s'" by (simp add: store_step_def)
  ultimately show ?thesis by (rule fresh_tree_widen[OF _ le_refl])
qed

lemma made_step:
  assumes 1: "store_step s s1" and 2: "made s1 s2 ys"
  shows "made s s2 ys"
proof -
  from 2 have st2: "store_step s1 s2"
    and f2: "\<forall>x \<in> set ys. fresh_tree (next_addr s1) (next_addr s2) (heap s2) x"
    by (simp_all add: made_def)
  from 1 have le: "next_addr s \<le> next_addr s1" by (simp add: store_step_def)
  have "\<forall>x \<in> set ys. fresh_tree (next_addr s) (next_addr s2) (heap s2) x"
    using f2 le by (auto intro: fresh_tree_widen)
  then show ?thesis using store_step_trans[OF 1 st2] by (simp add: made_def)
qed

lemma made_cons:
  assumes 1: "made s s1 [y]" and 2: "made s1 s2 ys"
  shows "made s s2 (y # ys)"
proof -
  from 1 have st1: "store_step s s1"
    and f1: "fresh_tree (next_addr s) (next_addr s1) (heap s1) y" by (simp_all add: made_def)
  from 2 have st2: "store_step s1 s2" by (simp add: made_def)
  have "fresh_tree (next_addr s) (next_addr s2) (heap s2) y"
    by (rule fresh_tree_store_step[OF f1 st2])
  with made_step[OF st1 2] show ?thesis by (simp add: made_def)
qed

lemma made_alloc:
  assumes m: "made s s1 ys" and al: "alloc obj s1 = (y, s2)"
    and refs: "set (refs_of obj) \<subseteq> set ys"
  shows "made s s2 [y]" "\<exists>b. y = Ptr b \<and> next_addr s \<le> b"
proof -
  from m have st: "store_step s s1"
    and ch: "\<forall>x \<in> set ys. fresh_tree (next_addr s) (next_addr s1) (heap s1) x"
    by (simp_all add: made_def)
  note a = alloc_step[OF al]
  from st have le: "next_addr s \<le> next_addr s1" by (simp add: store_step_def)
  with a(2) show "\<exists>b. y = Ptr b \<and> next_addr s \<le> b" by simp
  have st2: "store_step s s2" by (rule store_step_trans[OF st heap_store_step[OF a(1)]])
  have "\<forall>x \<in> set (refs_of (heap s2 (next_addr s1))).
          fresh_tree (next_addr s) (next_addr s2) (heap s2) x"
  proof
    fix x assume "x \<in> set (refs_of (heap s2 (next_addr s1)))"
    with a(3) refs have "x \<in> set ys" by auto
    with ch have "fresh_tree (next_addr s) (next_addr s1) (heap s1) x" by blast
    then show "fresh_tree (next_addr s) (next_addr s2) (heap s2) x"
      by (rule fresh_tree_step[OF _ a(1)])
  qed
  with le a(2,4) have "fresh_tree (next_addr s) (next_addr s2) (heap s2) y"
    by (auto intro: fresh_tree.node)
  with st2 show "made s s2 [y]" by (simp add: made_def)
qed

lemma set_globals_step:
  assumes "frame (unsealed_marker (globals s)) (globals s) w1"
  shows "store_step s (s\<lparr>globals := w1\<rparr>)"
  using assms by (simp add: store_step_def)

lemma get_default_args_store_made:
  "\<forall>r s'. get_default_args_store n C dnp s = (r, s') \<longrightarrow>
      store_step s s' \<and> (\<forall>a. C = Ptr a \<longrightarrow> globals s' = globals s)
      \<and> (\<forall>y. r = Inr y \<longrightarrow> made s s' [y] \<and> (\<exists>b. y = Ptr b \<and> next_addr s \<le> b))"
  "\<forall>r s'. structured_fields_store n flds s = (r, s') \<longrightarrow>
      store_step s s' \<and> (\<forall>items. r = Inr items \<longrightarrow> made s s' (map snd items))"
  "\<forall>r s'. field_default_store n d s = (r, s') \<longrightarrow>
      store_step s s' \<and> (\<forall>y. r = Inr y \<longrightarrow> made s s' [y])"
proof (induction n C dnp s and n flds s and n d s
       rule: get_default_args_store_structured_fields_store_field_default_store.induct)
  case (1 n C dnp s)
  show ?case
  proof (intro allI impI)
    fix r s' assume g: "get_default_args_store n C dnp s = (r, s')"
    show "store_step s s' \<and> (\<forall>a. C = Ptr a \<longrightarrow> globals s' = globals s)
      \<and> (\<forall>y. r = Inr y \<longrightarrow> made s s' [y] \<and> (\<exists>b. y = Ptr b \<and> next_addr s \<le> b))"
    proof (cases C)
      case (Ptr a)
      show ?thesis
      proof (cases "\<exists>params. heap s a = HFunc params")
        case False
        with g Ptr have "r = Inl (TypeError ''is not a callable object'')" "s' = s"
          by (cases "heap s a"; simp)+
        then show ?thesis by (simp add: store_step_refl)
      next
        case True
        then obtain params where h: "heap s a = HFunc params" by blast
        obtain r1 s1 where c: "copy_defaults n params s = (r1, s1)"
          by (cases "copy_defaults n params s")
        note st1 = copy_defaults_step[OF c]
        show ?thesis
        proof (cases r1)
          case (Inl e)
          with g Ptr h c have "r = Inl e" "s' = s1" by simp_all
          with st1 show ?thesis by (simp add: heap_store_step) (simp add: heap_step_def)
        next
          case (Inr kwargs)
          with g Ptr h c have nd: "new_DictConfig n kwargs s1 = (r, s')" by simp
          note st2 = new_DictConfig_built(1)[OF nd]
          have st: "heap_step s s'" by (rule heap_step_trans[OF st1 st2])
          have "made s s' [y] \<and> (\<exists>b. y = Ptr b \<and> next_addr s \<le> b)" if "r = Inr y" for y
          proof -
            from new_DictConfig_built(2)[OF nd that]
            have b: "built s1 s' [y]" and p: "\<exists>b. y = Ptr b \<and> next_addr s1 \<le> b" by blast+
            from built_step[OF st1 b] have "made s s' [y]" by (rule built_made)
            moreover from p st1 have "\<exists>b. y = Ptr b \<and> next_addr s \<le> b"
              by (auto simp: heap_step_def)
            ultimately show ?thesis by blast
          qed
          with st show ?thesis by (simp add: heap_store_step) (simp add: heap_step_def)
        qed
      qed
    next
      case (Lit Cv)
      show ?thesis
      proof (cases "Cv = VNone")
        case True
        obtain y s1 where al: "alloc (HDictConfig []) s = (y, s1)"
          by (cases "alloc (HDictConfig []) s")
        have m0: "made s s []" by (simp add: made_def store_step_refl)
        have "set (refs_of (HDictConfig [])) \<subseteq> set []" by (simp add: refs_of_def)
        note ma = made_alloc[OF m0 al this]
        from g Lit True al have "r = Inr y" "s' = s1" by simp_all
        with ma Lit show ?thesis by (simp add: made_store_step)
      next
        case False
        obtain x w1 where ep: "ensure_processed n Cv dnp (globals s) = (x, w1)"
          by (cases "ensure_processed n Cv dnp (globals s)")
        let ?s1 = "s\<lparr>globals := w1\<rparr>"
        have st1: "store_step s ?s1"
          by (rule set_globals_step[OF frame_ensure_processed[OF ep]])
        show ?thesis
        proof (cases x)
          case (Inl e)
          with g Lit False ep have "r = Inl e" "s' = ?s1" by simp_all
          with st1 Lit show ?thesis by simp
        next
          case (Inr u)
          show ?thesis
          proof (cases "fields_of w1 Cv")
            case None
            show ?thesis
            proof (cases "signature_defaults w1 Cv")
              case (Inl e)
              with g Lit False ep Inr None have "r = Inl e" "s' = ?s1" by simp_all
              with st1 Lit show ?thesis by simp
            next
              case (Inr kwargs)
              with g Lit False ep \<open>x = Inr u\<close> None
              have mm: "materialise n kwargs ?s1 = (r, s')" by (simp del: materialise.simps)
              from materialise_built(1) mm have hs: "heap_step ?s1 s'"
                and bb: "\<forall>y. r = Inr y \<longrightarrow> built ?s1 s' [y]" by blast+
              from signature_defaults_VDict[OF Inr] obtain dd where dd: "kwargs = VDict dd"
                by blast
              have "made s s' [y] \<and> (\<exists>b. y = Ptr b \<and> next_addr s \<le> b)" if "r = Inr y" for y
              proof -
                from bb that have "made ?s1 s' [y]" by (simp add: built_made)
                from made_step[OF st1 this] have "made s s' [y]" .
                moreover from materialise_VDict[OF mm[unfolded dd that]]
                have "\<exists>b. y = Ptr b \<and> next_addr s \<le> b" by simp
                ultimately show ?thesis by blast
              qed
              with store_step_trans[OF st1 heap_store_step[OF hs]] Lit show ?thesis by simp
            qed
          next
            case (Some flds)
            obtain r2 s2 where sf: "structured_fields_store n flds ?s1 = (r2, s2)"
              by (cases "structured_fields_store n flds ?s1")
            from 1[OF Lit False ep[symmetric] Inr Some] sf
            have ih: "store_step ?s1 s2 \<and> (\<forall>items. r2 = Inr items \<longrightarrow> made ?s1 s2 (map snd items))"
              by blast
            show ?thesis
            proof (cases r2)
              case (Inl e)
              with g Lit False ep Inr Some sf have "r = Inl e" "s' = s2" by simp_all
              with store_step_trans[OF st1 conjunct1[OF ih]] Lit show ?thesis by simp
            next
              case (Inr items)
              obtain out s3 where al: "alloc (HDictConfig items) s2 = (out, s3)"
                by (cases "alloc (HDictConfig items) s2")
              let ?s4 = "pop_fields (exclude_of (globals s3) Cv) out s3"
              from g Lit False ep \<open>x = Inr u\<close> Some sf Inr al
              have res: "r = Inr out" "s' = ?s4" by simp_all
              from ih Inr have m2: "made ?s1 s2 (map snd items)" by blast
              have "set (refs_of (HDictConfig
                      (filter (\<lambda>item. case fst item of
                                 SKey field \<Rightarrow> field \<notin> exclude_of (globals s3) Cv
                               | OKey _ \<Rightarrow> True) items))) \<subseteq> set (map snd items)"
                by (auto simp: refs_of_def)
              note ma = made_alloc[OF m2 pop_after_alloc[OF al] this]
              from made_step[OF st1 ma(1)] have "made s ?s4 [out]" .
              moreover from ma(2) have "\<exists>b. out = Ptr b \<and> next_addr s \<le> b" by simp
              ultimately show ?thesis using res Lit by (simp add: made_store_step)
            qed
          qed
        qed
      qed
    qed
  qed
next
  case (2 n s)
  show ?case by (simp add: store_step_refl made_def)
next
  case (3 n name ty d fs s)
  show ?case
  proof (intro allI impI)
    fix r s' assume sfs: "structured_fields_store n ((name, ty, d) # fs) s = (r, s')"
    obtain x s1 where fd: "field_default_store n d s = (x, s1)"
      by (cases "field_default_store n d s")
    from "3.IH"(1) fd have ih1: "store_step s s1 \<and> (\<forall>y. x = Inr y \<longrightarrow> made s s1 [y])" by blast
    show "store_step s s' \<and> (\<forall>items. r = Inr items \<longrightarrow> made s s' (map snd items))"
    proof (cases x)
      case (Inl e)
      with sfs fd have "r = Inl e" "s' = s1" by (simp_all del: field_default_store.simps)
      with ih1 show ?thesis by simp
    next
      case (Inr y)
      obtain r2 s2 where sf: "structured_fields_store n fs s1 = (r2, s2)"
        by (cases "structured_fields_store n fs s1")
      from "3.IH"(2)[OF fd[symmetric] Inr] sf
      have ih2: "store_step s1 s2 \<and> (\<forall>items. r2 = Inr items \<longrightarrow> made s1 s2 (map snd items))"
        by blast
      from ih1 Inr have m1: "made s s1 [y]" by blast
      show ?thesis
      proof (cases r2)
        case (Inl e)
        with sfs fd Inr sf have "r = Inl e" "s' = s2" by (simp_all del: field_default_store.simps)
        with store_step_trans[OF conjunct1[OF ih1] conjunct1[OF ih2]] show ?thesis by simp
      next
        case (Inr rest)
        with ih2 have "made s1 s2 (map snd rest)" by blast
        from made_cons[OF m1 this] have "made s s2 (y # map snd rest)" .
        moreover from sfs fd \<open>x = Inr y\<close> sf Inr
        have "r = Inr ((SKey name, y) # rest)" "s' = s2"
          by (simp_all del: field_default_store.simps)
        ultimately show ?thesis by (simp add: made_store_step)
      qed
    qed
  qed
next
  case (4 n d s)
  show ?case
  proof (intro allI impI)
    fix r s' assume f: "field_default_store n d s = (r, s')"
    show "store_step s s' \<and> (\<forall>y. r = Inr y \<longrightarrow> made s s' [y])"
    proof (cases "\<exists>C dnp. d = Some (VField C dnp)")
      case True
      then obtain C dnp where d: "d = Some (VField C dnp)" by blast
      show ?thesis
      proof (cases n)
        case 0
        with f d show ?thesis by (auto simp: store_step_refl)
      next
        case (Suc m)
        with f d have "get_default_args_store m (Lit C) dnp s = (r, s')" by simp
        with 4[OF d refl Suc] show ?thesis by blast
      qed
    next
      case False
      show ?thesis
      proof (cases d)
        case None
        with f have "r = Inr (Lit VMissing)" "s' = s" by simp_all
        then show ?thesis by (simp add: store_step_refl made_def fresh_tree.lit)
      next
        case (Some v)
        with False f have "materialise n v s = (r, s')"
          by (cases v) (simp_all del: materialise.simps)
        with materialise_built(1) have "heap_step s s'" "\<forall>y. r = Inr y \<longrightarrow> built s s' [y]"
          by blast+
        then show ?thesis by (simp add: heap_store_step built_made)
      qed
    qed
  qed
qed

lemma denotes_cong:
  assumes "denotes h y v" "fresh_tree k n h y" "\<forall>a < n. h' a = h a"
  shows "denotes h' y v"
  using assms
proof (induction rule: denotes.induct)
  case (lit v)
  show ?case by (rule denotes.lit)
next
  case (dictconfig a items d)
  from dictconfig.prems(1) have a: "a < n"
    and ch: "\<forall>x \<in> set (refs_of (h a)). fresh_tree k n h x"
    by (auto elim: fresh_tree.cases)
  from a dictconfig.prems(2) dictconfig.hyps(1) have h': "h' a = HDictConfig items" by simp
  from ch dictconfig.hyps(1) have fr: "\<forall>x \<in> set items. fresh_tree k n h (snd x)"
    by (simp add: refs_of_def)
  have "list_all2 (\<lambda>x y. fst x = fst y \<and> denotes h' (snd x) (snd y)) items d"
    using dictconfig.IH fr dictconfig.prems(2)
    by (auto elim!: list.rel_mono_strong)
  with h' show ?case by (rule denotes.dictconfig)
next
  case (listconfig a xs vs)
  from listconfig.prems(1) have a: "a < n"
    and ch: "\<forall>x \<in> set (refs_of (h a)). fresh_tree k n h x"
    by (auto elim: fresh_tree.cases)
  from a listconfig.prems(2) listconfig.hyps(1) have h': "h' a = HListConfig xs" by simp
  from ch listconfig.hyps(1) have fr: "\<forall>x \<in> set xs. fresh_tree k n h x"
    by (simp add: refs_of_def)
  have "list_all2 (denotes h') xs vs"
    using listconfig.IH fr listconfig.prems(2)
    by (auto elim!: list.rel_mono_strong)
  with h' show ?case by (rule denotes.listconfig)
qed

lemma denotes_step:
  assumes d: "denotes (heap s) y v" and f: "fresh_tree k (next_addr s) (heap s) y"
    and st: "store_step s s'"
  shows "denotes (heap s') y v"
proof -
  from st have "\<forall>a < next_addr s. heap s' a = heap s a" by (simp add: store_step_def)
  from denotes_cong[OF d f this] show ?thesis .
qed

lemma denotes_all_step:
  assumes d: "list_all2 (denotes (heap s)) ys vs"
    and f: "\<forall>y \<in> set ys. fresh_tree k (next_addr s) (heap s) y"
    and st: "store_step s s'"
  shows "list_all2 (denotes (heap s')) ys vs"
  using d f by (auto elim!: list.rel_mono_strong intro: denotes_step[OF _ _ st])

lemma built_D:
  "built s s' ys \<Longrightarrow> \<forall>y \<in> set ys. fresh_tree (next_addr s) (next_addr s') (heap s') y"
  by (simp add: built_def)

lemma made_D:
  "made s s' ys \<Longrightarrow> \<forall>y \<in> set ys. fresh_tree (next_addr s) (next_addr s') (heap s') y"
  by (simp add: made_def)

lemma zip_pairs:
  assumes "list_all2 R ys vs" "length ks = length ys"
  shows "list_all2 (\<lambda>x y. fst x = fst y \<and> R (snd x) (snd y)) (zip ks ys) (zip ks vs)"
  using assms
proof (induction arbitrary: ks rule: list_all2_induct)
  case Nil
  then show ?case by simp
next
  case (Cons y ys v vs)
  then show ?case by (cases ks) auto
qed

lemma zip_map_fst_snd: "zip (map fst d) (map snd d) = d"
  by (induction d) auto

lemma materialise_denotes:
  "\<forall>y s'. materialise n v s = (Inr y, s') \<longrightarrow> denotes (heap s') y v"
  "\<forall>ys s'. materialise_all n vs s = (Inr ys, s') \<longrightarrow> list_all2 (denotes (heap s')) ys vs"
proof (induction n v s and n vs s rule: materialise_materialise_all.induct)
  case (1 n v s)
  show ?case
  proof (intro allI impI)
    fix y s' assume m: "materialise n v s = (Inr y, s')"
    then have sup: "supported_value v" by (auto split: if_splits)
    show "denotes (heap s') y v"
    proof (cases "(\<exists>d. v = VDict d) \<or> (\<exists>xs. v = VList xs)")
      case False
      with m sup have "y = Lit v" by (cases v; simp)
      then show ?thesis by (simp add: denotes.lit)
    next
      case True
      from m sup True obtain k where n: "n = Suc k" by (cases n) auto
      from True show ?thesis
      proof
        assume "\<exists>d. v = VDict d"
        then obtain d where v: "v = VDict d" by blast
        obtain r1 s1 where c: "materialise_all k (map snd d) s = (r1, s1)"
          by (cases "materialise_all k (map snd d) s")
        from m sup v n c obtain ys where r1: "r1 = Inr ys" by (cases r1) auto
        from 1(1)[OF _ v n] sup c r1
        have ih: "list_all2 (denotes (heap s1)) ys (map snd d)" by blast
        from materialise_built(2) c r1 have b: "built s s1 ys" by blast
        obtain z s2 where al: "alloc (HDictConfig (zip (map fst d) ys)) s1 = (z, s2)"
          by (cases "alloc (HDictConfig (zip (map fst d) ys)) s1")
        from m sup v n c r1 al have res: "y = z" "s' = s2" by simp_all
        note a = alloc_step[OF al]
        from denotes_all_step[OF ih built_D[OF b] heap_store_step[OF a(1)]]
        have "list_all2 (denotes (heap s2)) ys (map snd d)" .
        moreover from ih have "length (map fst d) = length ys"
          by (auto dest: list_all2_lengthD)
        ultimately have "list_all2 (\<lambda>x y. fst x = fst y \<and> denotes (heap s2) (snd x) (snd y))
                           (zip (map fst d) ys) d"
          using zip_pairs[of "denotes (heap s2)" ys "map snd d" "map fst d"]
          by (simp add: zip_map_fst_snd)
        with a(2,3) res v show ?thesis by (auto intro: denotes.dictconfig)
      next
        assume "\<exists>xs. v = VList xs"
        then obtain xs where v: "v = VList xs" by blast
        obtain r1 s1 where c: "materialise_all k xs s = (r1, s1)"
          by (cases "materialise_all k xs s")
        from m sup v n c obtain ys where r1: "r1 = Inr ys" by (cases r1) auto
        from 1(2)[OF _ v n] sup c r1
        have ih: "list_all2 (denotes (heap s1)) ys xs" by blast
        from materialise_built(2) c r1 have b: "built s s1 ys" by blast
        obtain z s2 where al: "alloc (HListConfig ys) s1 = (z, s2)"
          by (cases "alloc (HListConfig ys) s1")
        from m sup v n c r1 al have res: "y = z" "s' = s2" by simp_all
        note a = alloc_step[OF al]
        from denotes_all_step[OF ih built_D[OF b] heap_store_step[OF a(1)]]
        have "list_all2 (denotes (heap s2)) ys xs" .
        with a(2,3) res v show ?thesis by (auto intro: denotes.listconfig)
      qed
    qed
  qed
next
  case (2 n s)
  show ?case by simp
next
  case (3 n x xs s)
  show ?case
  proof (intro allI impI)
    fix ys s' assume m: "materialise_all n (x # xs) s = (Inr ys, s')"
    obtain r1 s1 where c: "materialise n x s = (r1, s1)" by (cases "materialise n x s")
    from m c obtain y where r1: "r1 = Inr y" by (cases r1) (auto simp del: materialise.simps)
    obtain r2 s2 where c2: "materialise_all n xs s1 = (r2, s2)"
      by (cases "materialise_all n xs s1")
    from m c r1 c2 obtain ys' where r2: "r2 = Inr ys'"
      by (cases r2) (auto simp del: materialise.simps)
    from m c r1 c2 r2 have res: "ys = y # ys'" "s' = s2" by (auto simp del: materialise.simps)
    from 3(1) c r1 have d1: "denotes (heap s1) y x" by blast
    from materialise_built(1) c r1 have b1: "built s s1 [y]" by blast
    from materialise_built(2) c2 have st2: "heap_step s1 s2" by blast
    from 3(2)[OF c[symmetric] r1] c2 r2 have d2: "list_all2 (denotes (heap s2)) ys' xs" by blast
    from built_D[OF b1] have "fresh_tree (next_addr s) (next_addr s1) (heap s1) y" by simp
    from denotes_step[OF d1 this heap_store_step[OF st2]] d2 res
    show "list_all2 (denotes (heap s')) ys (x # xs)" by simp
  qed
qed

lemma list_all2_filter_keys:
  assumes "list_all2 (\<lambda>x y. fst x = fst y \<and> R (snd x) (snd y)) items out"
  shows "list_all2 (\<lambda>x y. fst x = fst y \<and> R (snd x) (snd y))
           (filter (\<lambda>item. P (fst item)) items) (filter (\<lambda>item. P (fst item)) out)"
  using assms by (induction rule: list_all2_induct) auto

lemma globals_pop_fields: "globals (pop_fields ex out s) = globals s"
  by (auto simp: pop_fields_def split: href.splits hobj.splits)

lemma materialise_supported:
  "materialise n v s = (Inr y, s') \<Longrightarrow> supported_value v"
  by (auto split: if_splits)

lemma get_default_args_store_refines:
  "\<forall>Cv y s'. C = Lit Cv \<longrightarrow> get_default_args_store n C dnp s = (Inr y, s') \<longrightarrow>
      (\<exists>v. get_default_args n Cv dnp (globals s) = (Inr v, globals s')
           \<and> denotes (heap s') y v)"
  "\<forall>items s'. structured_fields_store n flds s = (Inr items, s') \<longrightarrow>
      (\<exists>out. structured_fields n flds (globals s) = (Inr out, globals s')
           \<and> list_all2 (\<lambda>x y. fst x = fst y \<and> denotes (heap s') (snd x) (snd y)) items out)"
  "\<forall>y s'. field_default_store n d s = (Inr y, s') \<longrightarrow>
      (\<exists>v. field_default n d (globals s) = (Inr v, globals s') \<and> denotes (heap s') y v)"
proof (induction n C dnp s and n flds s and n d s
       rule: get_default_args_store_structured_fields_store_field_default_store.induct)
  case (1 n C dnp s)
  show ?case
  proof (intro allI impI)
    fix Cv y s' assume Lit: "C = Lit Cv"
      and g: "get_default_args_store n C dnp s = (Inr y, s')"
    show "\<exists>v. get_default_args n Cv dnp (globals s) = (Inr v, globals s') \<and> denotes (heap s') y v"
    proof (cases "Cv = VNone")
      case True
      obtain z s1 where al: "alloc (HDictConfig []) s = (z, s1)"
        by (cases "alloc (HDictConfig []) s")
      note a = alloc_step[OF al]
      from g Lit True al have res: "y = z" "s' = s1" by simp_all
      from a(1) have gl: "globals s1 = globals s" by (simp add: heap_step_def)
      have "denotes (heap s1) (Ptr (next_addr s)) (VDict [])"
        using a(3) by (auto intro: denotes.dictconfig)
      with True res a(2) gl show ?thesis by simp
    next
      case False
      obtain x w1 where ep: "ensure_processed n Cv dnp (globals s) = (x, w1)"
        by (cases "ensure_processed n Cv dnp (globals s)")
      let ?s1 = "s\<lparr>globals := w1\<rparr>"
      from g Lit False ep obtain u where x: "x = Inr u" by (cases x) auto
      show ?thesis
      proof (cases "fields_of w1 Cv")
        case None
        from g Lit False ep x None obtain kwargs where
          sd: "signature_defaults w1 Cv = Inr kwargs"
          by (cases "signature_defaults w1 Cv") auto
        with g Lit False ep x None
        have mm: "materialise n kwargs ?s1 = (Inr y, s')" by (simp del: materialise.simps)
        from materialise_built(1) mm have "heap_step ?s1 s'" by blast
        then have gl: "globals s' = w1" by (simp add: heap_step_def)
        from materialise_denotes(1) mm have "denotes (heap s') y kwargs" by blast
        with False ep x None sd gl show ?thesis by simp
      next
        case (Some flds)
        obtain r2 s2 where sf: "structured_fields_store n flds ?s1 = (r2, s2)"
          by (cases "structured_fields_store n flds ?s1")
        from g Lit False ep x Some sf obtain items where r2: "r2 = Inr items"
          by (cases r2) auto
        from 1[OF Lit False ep[symmetric] x Some] sf r2
        obtain out where vs: "structured_fields n flds w1 = (Inr out, globals s2)"
          and d2: "list_all2 (\<lambda>x y. fst x = fst y \<and> denotes (heap s2) (snd x) (snd y)) items out"
          by auto
        from get_default_args_store_made(2) sf r2 have m2: "made ?s1 s2 (map snd items)"
          by blast
        obtain z s3 where al: "alloc (HDictConfig items) s2 = (z, s3)"
          by (cases "alloc (HDictConfig items) s2")
        from alloc_step(1)[OF al] have gl3: "globals s3 = globals s2" by (simp add: heap_step_def)
        let ?ex = "exclude_of (globals s2) Cv"
        let ?s4 = "pop_fields ?ex z s3"
        let ?keep = "\<lambda>k. case k of SKey field \<Rightarrow> field \<notin> ?ex | OKey _ \<Rightarrow> True"
        from g Lit False ep x Some sf r2 al gl3 have res: "y = z" "s' = ?s4" by auto
        note a = alloc_step[OF pop_after_alloc[OF al, of ?ex]]
        from a(1) have gl4: "globals ?s4 = globals s2" by (simp add: heap_step_def)
        have "list_all2 (\<lambda>x y. fst x = fst y \<and> denotes (heap ?s4) (snd x) (snd y)) items out"
          using d2 made_D[OF m2] 
          by (auto elim!: list.rel_mono_strong
                   intro: denotes_step[OF _ _ heap_store_step[OF a(1)]])
        from list_all2_filter_keys[OF this, of ?keep]
        have dn: "denotes (heap ?s4) (Ptr (next_addr s2))
                (VDict (filter (\<lambda>item. ?keep (fst item)) out))"
          using a(3) by (auto intro: denotes.dictconfig)
        have gv: "get_default_args n Cv dnp (globals s)
                         = (Inr (VDict (pop_excluded ?ex out)), globals s2)"
          using False ep x Some vs by simp
        have pe: "pop_excluded ?ex out = filter (\<lambda>item. ?keep (fst item)) out"
          by (simp add: pop_excluded_def)
        from gv pe have "get_default_args n Cv dnp (globals s)
             = (Inr (VDict (filter (\<lambda>item. ?keep (fst item)) out)), globals ?s4)"
          using gl4 by (simp del: get_default_args.simps)
        with dn res a(2) show ?thesis by blast
      qed
    qed
  qed
next
  case (2 n s)
  show ?case by simp
next
  case (3 n name ty d fs s)
  show ?case
  proof (intro allI impI)
    fix items s' assume sfs: "structured_fields_store n ((name, ty, d) # fs) s = (Inr items, s')"
    obtain x s1 where fd: "field_default_store n d s = (x, s1)"
      by (cases "field_default_store n d s")
    from sfs fd obtain y where x: "x = Inr y"
      by (cases x) (auto simp del: field_default_store.simps)
    obtain r2 s2 where sf: "structured_fields_store n fs s1 = (r2, s2)"
      by (cases "structured_fields_store n fs s1")
    from sfs fd x sf obtain rest where r2: "r2 = Inr rest"
      by (cases r2) (auto simp del: field_default_store.simps)
    from sfs fd x sf r2 have res: "items = (SKey name, y) # rest" "s' = s2"
      by (auto simp del: field_default_store.simps)
    from "3.IH"(1) fd x obtain v where
      v1: "field_default n d (globals s) = (Inr v, globals s1)"
      and d1: "denotes (heap s1) y v" by blast
    from "3.IH"(2)[OF fd[symmetric] x] sf r2 obtain out where
      v2: "structured_fields n fs (globals s1) = (Inr out, globals s2)"
      and d2: "list_all2 (\<lambda>x y. fst x = fst y \<and> denotes (heap s2) (snd x) (snd y)) rest out"
      by blast
    from get_default_args_store_made(3) fd x have m1: "made s s1 [y]" by blast
    from get_default_args_store_made(2) sf have st2: "store_step s1 s2" by blast
    from made_D[OF m1] have "fresh_tree (next_addr s) (next_addr s1) (heap s1) y" by simp
    from denotes_step[OF d1 this st2] have "denotes (heap s2) y v" .
    with d2 have "list_all2 (\<lambda>x y. fst x = fst y \<and> denotes (heap s2) (snd x) (snd y))
                    ((SKey name, y) # rest) ((SKey name, v) # out)" by simp
    moreover from v1 v2
    have "structured_fields n ((name, ty, d) # fs) (globals s)
            = (Inr ((SKey name, v) # out), globals s2)"
      by (simp del: field_default.simps)
    ultimately
    show "\<exists>out. structured_fields n ((name, ty, d) # fs) (globals s) = (Inr out, globals s')
           \<and> list_all2 (\<lambda>x y. fst x = fst y \<and> denotes (heap s') (snd x) (snd y)) items out"
      using res by blast
  qed
next
  case (4 n d s)
  show ?case
  proof (intro allI impI)
    fix y s' assume f: "field_default_store n d s = (Inr y, s')"
    show "\<exists>v. field_default n d (globals s) = (Inr v, globals s') \<and> denotes (heap s') y v"
    proof (cases "\<exists>C dnp. d = Some (VField C dnp)")
      case True
      then obtain C dnp where d: "d = Some (VField C dnp)" by blast
      from f d obtain m where n: "n = Suc m" by (cases n) auto
      with f d have "get_default_args_store m (Lit C) dnp s = (Inr y, s')" by simp
      with 4[OF d refl n] obtain v where
        "get_default_args m C dnp (globals s) = (Inr v, globals s')" "denotes (heap s') y v"
        by blast
      with d n show ?thesis by simp
    next
      case False
      show ?thesis
      proof (cases d)
        case None
        with f have "y = Lit VMissing" "s' = s" by simp_all
        with None show ?thesis by (simp add: plain_default_def denotes.lit)
      next
        case (Some v)
        with False f have mm: "materialise n v s = (Inr y, s')"
          by (cases v) (simp_all del: materialise.simps)
        from materialise_built(1) mm have "heap_step s s'" by blast
        then have gl: "globals s' = globals s" by (simp add: heap_step_def)
        from materialise_denotes(1) mm have dn: "denotes (heap s') y v" by blast
        from materialise_supported[OF mm] Some False
        have "field_default n d (globals s) = (Inr v, globals s)"
          by (cases v) (simp_all add: plain_default_def)
        with gl dn show ?thesis by auto
      qed
    qed
  qed
qed

text \<open>
  Claim C9, as amended.  \<^verbatim>\<open>get_default_args(target)\<close> leaves every class that is already
  expanded and every class without a marker type as it is; only a marker class that has
  not been expanded yet is changed: it is expanded in place.  On the objects: no object
  that existed before the call is changed, so a function that is the target and the
  default values of its parameters are as before, and for such a target the process state,
  with all its classes, is as before too.  The tree returned is a new object, and every
  object reached from it has been created by the call.  For a target that is a class, or
  any other literal, the classes change as said for \<open>get_default_args\<close> above, which
  returns the value of the tree.
\<close>

theorem get_default_args_frame:
  "(get_default_args n C dnp w = (r, w') \<longrightarrow>
      (\<forall>c. is_actually_dataclass w c \<or> \<not> marker w c \<longrightarrow> classes w' c = classes w c))
   \<and> (get_default_args_store n T dnp' s = (res, s') \<longrightarrow>
        (\<forall>a < next_addr s. heap s' a = heap s a)
      \<and> (\<forall>c. is_actually_dataclass (globals s) c \<or> \<not> marker (globals s) c
             \<longrightarrow> classes (globals s') c = classes (globals s) c)
      \<and> (\<forall>a. T = Ptr a \<longrightarrow> globals s' = globals s)
      \<and> (\<forall>y. res = Inr y \<longrightarrow>
            (\<exists>b. y = Ptr b \<and> next_addr s \<le> b \<and> b < next_addr s')
          \<and> fresh_tree (next_addr s) (next_addr s') (heap s') y
          \<and> (\<forall>Cv. T = Lit Cv \<longrightarrow>
                (\<exists>v. get_default_args n Cv dnp' (globals s) = (Inr v, globals s')
                    \<and> denotes (heap s') y v))))"
proof (intro conjI impI)
  assume g: "get_default_args n C dnp w = (r, w')"
  with frame_get_default_args(1) have "frame (unsealed_marker w) w w'" by blast
  then show "\<forall>c. is_actually_dataclass w c \<or> \<not> marker w c \<longrightarrow> classes w' c = classes w c"
    by (auto simp: frame_def unsealed_marker_def)
next
  assume g: "get_default_args_store n T dnp' s = (res, s')"
  with get_default_args_store_made(1)
  have st: "store_step s s'" and pt: "\<forall>a. T = Ptr a \<longrightarrow> globals s' = globals s"
    and m: "\<forall>y. res = Inr y \<longrightarrow> made s s' [y] \<and> (\<exists>b. y = Ptr b \<and> next_addr s \<le> b)"
    by blast+
  from st show "\<forall>a < next_addr s. heap s' a = heap s a" by (simp add: store_step_def)
  from st have "frame (unsealed_marker (globals s)) (globals s) (globals s')"
    by (simp add: store_step_def)
  then show "\<forall>c. is_actually_dataclass (globals s) c \<or> \<not> marker (globals s) c
             \<longrightarrow> classes (globals s') c = classes (globals s) c"
    by (auto simp: frame_def unsealed_marker_def)
  from pt show "\<forall>a. T = Ptr a \<longrightarrow> globals s' = globals s" .
  show "\<forall>y. res = Inr y \<longrightarrow>
            (\<exists>b. y = Ptr b \<and> next_addr s \<le> b \<and> b < next_addr s')
          \<and> fresh_tree (next_addr s) (next_addr s') (heap s') y
          \<and> (\<forall>Cv. T = Lit Cv \<longrightarrow>
                (\<exists>v. get_default_args n Cv dnp' (globals s) = (Inr v, globals s')
                    \<and> denotes (heap s') y v))"
  proof (intro allI impI)
    fix y assume y: "res = Inr y"
    with m have md: "made s s' [y]" and p: "\<exists>b. y = Ptr b \<and> next_addr s \<le> b" by blast+
    from md have f: "fresh_tree (next_addr s) (next_addr s') (heap s') y"
      by (simp add: made_def)
    from p obtain b where b: "y = Ptr b" "next_addr s \<le> b" by blast
    from f b have "b < next_addr s'" by (auto elim: fresh_tree.cases)
    with b have 1: "\<exists>b. y = Ptr b \<and> next_addr s \<le> b \<and> b < next_addr s'" by blast
    have 3: "\<forall>Cv. T = Lit Cv \<longrightarrow>
                (\<exists>v. get_default_args n Cv dnp' (globals s) = (Inr v, globals s')
                    \<and> denotes (heap s') y v)"
      using get_default_args_store_refines(1) g y by blast
    from 1 f 3 show "(\<exists>b. y = Ptr b \<and> next_addr s \<le> b \<and> b < next_addr s')
          \<and> fresh_tree (next_addr s) (next_addr s') (heap s') y
          \<and> (\<forall>Cv. T = Lit Cv \<longrightarrow>
                (\<exists>v. get_default_args n Cv dnp' (globals s) = (Inr v, globals s')
                    \<and> denotes (heap s') y v))" by blast
  qed
qed

lemmas store_defs = alloc_def new_DictConfig_def pop_fields_def example_store_def
  example_heap_def supported_value_def

text \<open>
  For the processed class \<^verbatim>\<open>B\<close> of Scenario A the class is unchanged and the new tree reads as
  the tree of Scenario A; for the function \<^verbatim>\<open>f\<close> the function, the list and the dict that are
  its default values are unchanged, and the tree returned is made of the objects at the
  addresses \<open>5\<close>, \<open>6\<close> and \<open>7\<close>, created by the call.
\<close>

theorem get_default_args_frame_witness:
  "is_actually_dataclass processed cls_B
   \<and> classes (snd (get_default_args (Suc 0) (VClass cls_B) [] processed)) cls_B
       = classes processed cls_B
   \<and> fst (get_default_args_store (Suc (Suc 0)) (Ptr 0) [] example_store) = Inr (Ptr 7)
   \<and> heap (snd (get_default_args_store (Suc (Suc 0)) (Ptr 0) [] example_store)) 0
       = HFunc [(''x'', None), (''y'', Some (Lit (VInt 5))), (''z'', Some (Ptr 1))]
   \<and> heap (snd (get_default_args_store (Suc (Suc 0)) (Ptr 0) [] example_store)) 1
       = HList [Lit (VInt 1), Ptr 2]
   \<and> heap (snd (get_default_args_store (Suc (Suc 0)) (Ptr 0) [] example_store)) 2
       = HDict [(SKey ''k'', Lit (VStr ''v''))]
   \<and> globals (snd (get_default_args_store (Suc (Suc 0)) (Ptr 0) [] example_store)) = processed
   \<and> fresh_tree 3 8 (heap (snd (get_default_args_store (Suc (Suc 0)) (Ptr 0) [] example_store)))
        (Ptr 7)
   \<and> fst (get_default_args_store (Suc 0) (Lit (VClass cls_B)) [] example_store) = Inr (Ptr 5)
   \<and> denotes (heap (snd (get_default_args_store (Suc 0) (Lit (VClass cls_B)) [] example_store)))
        (Ptr 5) (VDict scenario_tree)
   \<and> classes (globals (snd (get_default_args_store (Suc 0) (Lit (VClass cls_B)) []
                                example_store))) cls_B
       = classes processed cls_B"
proof -
  let ?f = "get_default_args_store (Suc (Suc 0)) (Ptr 0) [] example_store"
  let ?c = "get_default_args_store (Suc 0) (Lit (VClass cls_B)) [] example_store"
  have s: "is_actually_dataclass processed cls_B"
    by (simp add: is_actually_dataclass_def processed_classes sealed_B_def)
  have 1: "classes (snd (get_default_args (Suc 0) (VClass cls_B) [] processed)) cls_B
       = classes processed cls_B"
    using get_default_args_frame[where n = "Suc 0" and C = "VClass cls_B" and dnp = "[]"
            and w = processed
            and r = "fst (get_default_args (Suc 0) (VClass cls_B) [] processed)"
            and w' = "snd (get_default_args (Suc 0) (VClass cls_B) [] processed)",
            THEN conjunct1, THEN mp, OF prod.collapse[symmetric]] s
    by blast
  have ef: "?f = (Inr (Ptr 7),
       \<lparr>globals = processed,
          heap = example_heap
            (3 := HDict [(SKey ''k'', Lit (VStr ''v''))],
             4 := HList [Lit (VInt 1), Ptr 3],
             5 := HDictConfig [(SKey ''k'', Lit (VStr ''v''))],
             6 := HListConfig [Lit (VInt 1), Ptr 5],
             7 := HDictConfig [(SKey ''y'', Lit (VInt 5)), (SKey ''z'', Ptr 6)]),
          next_addr = 8\<rparr>)"
    by (simp add: store_defs)
  have ec: "?c = (Inr (Ptr 5),
       \<lparr>globals = processed,
          heap = example_heap
            (3 := HDictConfig [(SKey ''m'', Lit (VInt 3))],
             4 := HDictConfig [(SKey ''n'', Lit (VStr ''2''))],
             5 := HDictConfig
                   [(SKey ''a_class_type'', Lit (VStr ''A2'')), (SKey ''a_A1_args'', Ptr 3),
                    (SKey ''a_A2_args'', Ptr 4)]),
          next_addr = 6\<rparr>)"
    by (simp add: store_defs processed_defs tree_defs expand_sealed processed_classes sealed_defs)
  have 3: "fst ?f = Inr (Ptr 7)" by (simp only: ef fst_conv)
  have n: "next_addr example_store = 3" "globals example_store = processed"
    by (simp_all add: example_store_def)
  have n': "next_addr (snd ?f) = 8" by (simp only: ef snd_conv) simp
  note at_f = get_default_args_frame[where n = "Suc (Suc 0)" and T = "Ptr 0" and dnp' = "[]"
      and s = example_store and res = "fst ?f" and s' = "snd ?f",
      THEN conjunct2, THEN mp, OF prod.collapse[symmetric]]
  from at_f n have h: "heap (snd ?f) 0 = heap example_store 0"
    "heap (snd ?f) 1 = heap example_store 1" "heap (snd ?f) 2 = heap example_store 2"
    by (simp_all del: get_default_args_store.simps)
  have 4: "heap (snd ?f) 0
       = HFunc [(''x'', None), (''y'', Some (Lit (VInt 5))), (''z'', Some (Ptr 1))]"
    and 5: "heap (snd ?f) 1 = HList [Lit (VInt 1), Ptr 2]"
    and 6: "heap (snd ?f) 2 = HDict [(SKey ''k'', Lit (VStr ''v''))]"
    by (simp_all only: h) (simp_all add: example_store_def example_heap_def)
  from at_f n have 7: "globals (snd ?f) = processed"
    by (simp del: get_default_args_store.simps)
  from at_f 3 have "fresh_tree (next_addr example_store) (next_addr (snd ?f)) (heap (snd ?f)) (Ptr 7)"
    by (simp del: get_default_args_store.simps)
  with n n' have 8: "fresh_tree 3 8 (heap (snd ?f)) (Ptr 7)" by simp
  have 9: "fst ?c = Inr (Ptr 5)" by (simp only: ec fst_conv)
  note at_c = get_default_args_frame[where n = "Suc 0" and T = "Lit (VClass cls_B)"
      and dnp' = "[]" and s = example_store and res = "fst ?c" and s' = "snd ?c",
      THEN conjunct2, THEN mp, OF prod.collapse[symmetric]]
  from at_c 9 n obtain v where
    gv: "get_default_args (Suc 0) (VClass cls_B) [] processed = (Inr v, globals (snd ?c))"
    and dv: "denotes (heap (snd ?c)) (Ptr 5) v"
    by (auto simp del: get_default_args_store.simps get_default_args.simps)
  have "fst (get_default_args (Suc 0) (VClass cls_B) [] processed) = Inr (VDict scenario_tree)"
    by (simp add: processed_defs tree_defs expand_sealed processed_classes sealed_defs)
  with gv have "v = VDict scenario_tree" by (simp del: get_default_args.simps)
  with dv have 10: "denotes (heap (snd ?c)) (Ptr 5) (VDict scenario_tree)" by simp
  from at_c s n have 11: "classes (globals (snd ?c)) cls_B = classes processed cls_B"
    by (simp del: get_default_args_store.simps)
  from s 1 3 4 5 6 7 8 9 10 11 show ?thesis by (intro conjI)
qed

end
